theory Spec2Isabelle
  imports Complex_Main "HOL-Library.Word" "HOL-Library.Log_Nat"
begin

unbundle bit_operations_syntax

section \<open>Clock (ffmpeg-decoder.c)\<close>

text \<open>
  The clock of \<^verbatim>\<open>struct ffmpeg_decoder\<close>. \<^verbatim>\<open>uint64_t\<close> fields are \<open>64 word\<close>;
  \<^verbatim>\<open>int64_t\<close> fields are \<open>64 word\<close> read with \<open>sint\<close>. A finite \<^verbatim>\<open>double\<close> is the
  real number it denotes, and every operation on doubles (the conversion from
  \<^verbatim>\<open>int64_t\<close>, the product, the quotient) returns the exact result rounded to the
  nearest IEEE 754 binary64 number, ties to even (\<open>round_double\<close> below).
  \<open>playback_rate\<close> holds a finite double: \<^verbatim>\<open>ffmpeg_decoder_create\<close> sets it to 1.0 and
  nothing else assigns it.
\<close>

record clock =
  system_start :: "64 word"
  media_start_pts :: "64 word"
  last_pts :: "64 word"
  last_system :: "64 word"
  playback_rate :: real

text \<open>\<^verbatim>\<open>os_gettime_ns() / 1000000\<close>: the wall clock in milliseconds.\<close>

definition ns_to_ms :: "64 word \<Rightarrow> 64 word" where
  "ns_to_ms now_ns = now_ns div 1000000"

text \<open>
  \<^verbatim>\<open>int64_t pts_delta = pts - media_start_pts\<close>: signed subtraction, undefined
  when the mathematical difference does not fit (\<open>None\<close>).
\<close>

definition int64_sub :: "64 word \<Rightarrow> 64 word \<Rightarrow> 64 word option" where
  "int64_sub a b =
     (let d = sint a - sint b
      in if - (2 ^ 63) \<le> d \<and> d < 2 ^ 63 then Some (a - b) else None)"

text \<open>
  The cast \<^verbatim>\<open>(uint64_t)system_delta_ms\<close>: the fractional part is discarded
  (truncation towards zero); the conversion is undefined when the integral part is not a
  \<^verbatim>\<open>uint64_t\<close> value (\<open>None\<close>).
\<close>

definition trunc_real :: "real \<Rightarrow> int" where
  "trunc_real x = (if x < 0 then \<lceil>x\<rceil> else \<lfloor>x\<rfloor>)"

definition double_to_uint64 :: "real \<Rightarrow> 64 word option" where
  "double_to_uint64 x =
     (let t = trunc_real x
      in if 0 \<le> t \<and> t < 2 ^ 64 then Some (word_of_int t) else None)"

subsection \<open>Binary64 rounding\<close>

text \<open>
  Rounding of a real number to the nearest integer, ties to the even one.
\<close>

definition round_half_even :: "real \<Rightarrow> int" where
  "round_half_even z =
     (let f = \<lfloor>z\<rfloor>; r = z - of_int f
      in if r < 1 / 2 then f else if 1 / 2 < r then f + 1 else if even f then f else f + 1)"

text \<open>
  The binary exponent of a non-zero real: the \<open>e\<close> with \<open>2\<^sup>e \<le> |x| < 2\<^sup>e\<^sup>+\<^sup>1\<close>, computed
  from the length in bits of an integer.
\<close>

definition binade :: "real \<Rightarrow> int" where
  "binade x =
     (let a = \<bar>x\<bar>
      in if 1 \<le> a then bitlen \<lfloor>a\<rfloor> - 1 else - bitlen (\<lceil>1 / a\<rceil> - 1))"

text \<open>
  The binary64 number nearest to \<open>x\<close>: a multiple of \<open>2\<^sup>e\<^sup>-\<^sup>5\<^sup>2\<close> (53 significant bits),
  where \<open>e\<close> is the exponent of \<open>x\<close> and at least \<open>-1022\<close> (below, the numbers are
  subnormal and the spacing stays \<open>2\<^sup>-\<^sup>1\<^sup>0\<^sup>7\<^sup>4\<close>). A result of magnitude \<open>2\<^sup>1\<^sup>0\<^sup>2\<^sup>4\<close> or more is
  an infinity (\<open>None\<close>).
\<close>

definition round_double :: "real \<Rightarrow> real option" where
  "round_double x =
     (if x = 0 then Some 0
      else
        (let e = max (binade x) (- 1022);
             u = 2 powi (e - 52);
             y = of_int (round_half_even (x / u)) * u
         in if 2 ^ 1024 \<le> \<bar>y\<bar> then None else Some y))"

subsection \<open>The clock functions\<close>

text \<open>
  \<^verbatim>\<open>clock_get_system_time_for_pts\<close>:
  \<^verbatim>\<open>(double)pts_delta / (1000.0 * playback_rate)\<close>, each of the three operations
  rounded. The conversion of an \<^verbatim>\<open>int64_t\<close> is always finite. When the product
  \<^verbatim>\<open>1000.0 * playback_rate\<close> is an infinity the quotient is a zero and the result is
  \<open>system_start\<close>; when the product is zero the quotient is an infinity or a NaN, and
  when the quotient overflows it is an infinity: the cast of those to
  \<^verbatim>\<open>uint64_t\<close> is undefined (\<open>None\<close>).
\<close>

definition clock_get_system_time_for_pts :: "clock \<Rightarrow> 64 word \<Rightarrow> 64 word option" where
  "clock_get_system_time_for_pts c pts =
     (case int64_sub pts (media_start_pts c) of
        None \<Rightarrow> None
      | Some pts_delta \<Rightarrow>
          (case round_double (real_of_int (sint pts_delta)) of
             None \<Rightarrow> None
           | Some pts_delta_d \<Rightarrow>
               (case round_double (1000 * playback_rate c) of
                  None \<Rightarrow> Some (system_start c)
                | Some divisor \<Rightarrow>
                    if divisor = 0 then None
                    else
                      (case round_double (pts_delta_d / divisor) of
                         None \<Rightarrow> None
                       | Some system_delta_ms \<Rightarrow>
                           (case double_to_uint64 system_delta_ms of
                              None \<Rightarrow> None
                            | Some delta \<Rightarrow> Some (system_start c + delta))))))"

text \<open>\<^verbatim>\<open>clock_reset\<close>, with the value of \<^verbatim>\<open>os_gettime_ns()\<close> as an argument.\<close>

definition clock_reset :: "clock \<Rightarrow> 64 word \<Rightarrow> 64 word \<Rightarrow> clock" where
  "clock_reset c now_ns start_pts =
     c\<lparr>system_start := ns_to_ms now_ns,
       media_start_pts := start_pts,
       last_pts := start_pts,
       last_system := ns_to_ms now_ns\<rparr>"

definition clock_update :: "clock \<Rightarrow> 64 word \<Rightarrow> 64 word \<Rightarrow> clock" where
  "clock_update c now_ns pts = c\<lparr>last_pts := pts, last_system := ns_to_ms now_ns\<rparr>"

section \<open>Lock-free ring buffer (lockfree-ringbuffer.h, lockfree-ringbuffer.c)\<close>

text \<open>
  \<^verbatim>\<open>#define RING_BUFFER_SIZE 4\<close>. An \<^verbatim>\<open>AVFrame *\<close> is an address, \<open>None\<close> for
  \<^verbatim>\<open>NULL\<close>. The fields of \<^verbatim>\<open>struct lockfree_frame_slot\<close> carry the prefix
  \<open>slot_\<close>, since other structs of the program have fields of the same names.
\<close>

definition RING_BUFFER_SIZE :: nat where
  "RING_BUFFER_SIZE = 4"

type_synonym AVFrame_ptr = "nat option"

datatype slot_state = SLOT_EMPTY | SLOT_WRITING | SLOT_READY | SLOT_READING

record lockfree_frame_slot =
  slot_frame :: AVFrame_ptr
  slot_timestamp :: "64 word"
  slot_state :: slot_state

record lockfree_ringbuffer =
  write_pos :: "32 word"
  read_pos :: "32 word"
  slots :: "lockfree_frame_slot list"
  frames_written :: "64 word"
  frames_read :: "64 word"
  write_failures :: "64 word"
  read_failures :: "64 word"

text \<open>\<^verbatim>\<open>lockfree_ringbuffer_init\<close>: everything zeroed, every slot empty.\<close>

definition lockfree_ringbuffer_init :: lockfree_ringbuffer where
  "lockfree_ringbuffer_init =
     \<lparr>write_pos = 0, read_pos = 0,
      slots = replicate RING_BUFFER_SIZE
                \<lparr>slot_frame = None, slot_timestamp = 0, slot_state = SLOT_EMPTY\<rparr>,
      frames_written = 0, frames_read = 0, write_failures = 0, read_failures = 0\<rparr>"

text \<open>\<^verbatim>\<open>(pos + 1) & (RING_BUFFER_SIZE - 1)\<close> on \<^verbatim>\<open>uint32_t\<close>.\<close>

definition next_pos :: "32 word \<Rightarrow> 32 word" where
  "next_pos pos = (pos + 1) AND (word_of_nat RING_BUFFER_SIZE - 1)"

text \<open>
  \<^verbatim>\<open>lockfree_ringbuffer_write_begin\<close>. The C function returns a \<^verbatim>\<open>bool\<close> and writes
  the claimed index through \<^verbatim>\<open>*slot\<close>; the model returns \<open>Some index\<close> for
  \<^verbatim>\<open>true\<close> and \<open>None\<close> for \<^verbatim>\<open>false\<close>, with the buffer after the call. The
  compare-and-swap on the slot state is a test followed by a store. Reading
  \<^verbatim>\<open>slots[write_pos]\<close> beyond the array is undefined: the outer \<open>None\<close>.
\<close>

definition lockfree_ringbuffer_write_begin ::
  "lockfree_ringbuffer \<Rightarrow> (32 word option \<times> lockfree_ringbuffer) option" where
  "lockfree_ringbuffer_write_begin rb =
     (let wp = write_pos rb in
      if length (slots rb) \<le> unat wp then None
      else if slot_state (slots rb ! unat wp) \<noteq> SLOT_EMPTY
        then Some (None, rb\<lparr>write_failures := write_failures rb + 1\<rparr>)
        else Some (Some wp,
               rb\<lparr>slots := (slots rb)[unat wp := (slots rb ! unat wp)\<lparr>slot_state := SLOT_WRITING\<rparr>],
                  write_pos := next_pos wp\<rparr>))"

text \<open>\<^verbatim>\<open>lockfree_ringbuffer_write_commit\<close>; an index out of range is ignored.\<close>

definition lockfree_ringbuffer_write_commit ::
  "lockfree_ringbuffer \<Rightarrow> 32 word \<Rightarrow> AVFrame_ptr \<Rightarrow> 64 word \<Rightarrow> lockfree_ringbuffer" where
  "lockfree_ringbuffer_write_commit rb slot frame timestamp =
     (if RING_BUFFER_SIZE \<le> unat slot then rb
      else rb\<lparr>slots := (slots rb)[unat slot :=
                   \<lparr>slot_frame = frame, slot_timestamp = timestamp, slot_state = SLOT_READY\<rparr>],
              frames_written := frames_written rb + 1\<rparr>)"

definition lockfree_ringbuffer_write_abort ::
  "lockfree_ringbuffer \<Rightarrow> 32 word \<Rightarrow> lockfree_ringbuffer" where
  "lockfree_ringbuffer_write_abort rb slot =
     (if RING_BUFFER_SIZE \<le> unat slot then rb
      else rb\<lparr>slots := (slots rb)[unat slot := (slots rb ! unat slot)\<lparr>slot_state := SLOT_EMPTY\<rparr>]\<rparr>)"

text \<open>
  \<^verbatim>\<open>lockfree_ringbuffer_read_begin\<close>: \<open>Some (index, frame, timestamp)\<close> for
  \<^verbatim>\<open>true\<close> with its three out-parameters, \<open>None\<close> for \<^verbatim>\<open>false\<close>.
\<close>

definition lockfree_ringbuffer_read_begin ::
  "lockfree_ringbuffer \<Rightarrow>
     ((32 word \<times> AVFrame_ptr \<times> 64 word) option \<times> lockfree_ringbuffer) option" where
  "lockfree_ringbuffer_read_begin rb =
     (let rp = read_pos rb in
      if length (slots rb) \<le> unat rp then None
      else if slot_state (slots rb ! unat rp) \<noteq> SLOT_READY
        then Some (None, rb\<lparr>read_failures := read_failures rb + 1\<rparr>)
        else Some (Some (rp, slot_frame (slots rb ! unat rp), slot_timestamp (slots rb ! unat rp)),
               rb\<lparr>slots := (slots rb)[unat rp :=
                        \<lparr>slot_frame = None, slot_timestamp = 0, slot_state = SLOT_READING\<rparr>],
                  read_pos := next_pos rp,
                  frames_read := frames_read rb + 1\<rparr>))"

definition lockfree_ringbuffer_read_complete ::
  "lockfree_ringbuffer \<Rightarrow> 32 word \<Rightarrow> lockfree_ringbuffer" where
  "lockfree_ringbuffer_read_complete rb slot =
     (if RING_BUFFER_SIZE \<le> unat slot then rb
      else rb\<lparr>slots := (slots rb)[unat slot := (slots rb ! unat slot)\<lparr>slot_state := SLOT_EMPTY\<rparr>]\<rparr>)"

definition lockfree_ringbuffer_available_slots :: "lockfree_ringbuffer \<Rightarrow> nat" where
  "lockfree_ringbuffer_available_slots rb =
     length (filter (\<lambda>s. slot_state s = SLOT_EMPTY) (take RING_BUFFER_SIZE (slots rb)))"

subsection \<open>Producer and consumer protocols\<close>

text \<open>
  An enqueue is \<^verbatim>\<open>write_begin\<close> followed, when it succeeds, by \<^verbatim>\<open>write_commit\<close> on
  the claimed slot; the result says whether the frame went in. \<open>enqueue_all\<close> enqueues a
  list of (frame, timestamp) pairs and is \<open>Some\<close> only when every enqueue succeeded.
\<close>

definition enqueue ::
  "lockfree_ringbuffer \<Rightarrow> AVFrame_ptr \<times> 64 word \<Rightarrow> (bool \<times> lockfree_ringbuffer) option" where
  "enqueue rb x =
     (case lockfree_ringbuffer_write_begin rb of
        None \<Rightarrow> None
      | Some (None, rb') \<Rightarrow> Some (False, rb')
      | Some (Some slot, rb') \<Rightarrow>
          Some (True, lockfree_ringbuffer_write_commit rb' slot (fst x) (snd x)))"

fun enqueue_all ::
  "lockfree_ringbuffer \<Rightarrow> (AVFrame_ptr \<times> 64 word) list \<Rightarrow> lockfree_ringbuffer option" where
  "enqueue_all rb [] = Some rb"
| "enqueue_all rb (x # xs) =
     (case enqueue rb x of
        Some (True, rb') \<Rightarrow> enqueue_all rb' xs
      | _ \<Rightarrow> None)"

text \<open>
  A dequeue is \<^verbatim>\<open>read_begin\<close>; with \<open>release\<close> the consumer also returns the slot
  with \<^verbatim>\<open>read_complete\<close> before the next dequeue. \<open>dequeue_n\<close> makes \<open>n\<close> dequeues
  and is \<open>Some\<close> only when every one of them delivered a frame.
\<close>

definition dequeue ::
  "bool \<Rightarrow> lockfree_ringbuffer \<Rightarrow>
     ((AVFrame_ptr \<times> 64 word) option \<times> lockfree_ringbuffer) option" where
  "dequeue release rb =
     (case lockfree_ringbuffer_read_begin rb of
        None \<Rightarrow> None
      | Some (None, rb') \<Rightarrow> Some (None, rb')
      | Some (Some (slot, frame, timestamp), rb') \<Rightarrow>
          Some (Some (frame, timestamp),
                if release then lockfree_ringbuffer_read_complete rb' slot else rb'))"

fun dequeue_n ::
  "bool \<Rightarrow> lockfree_ringbuffer \<Rightarrow> nat \<Rightarrow>
     ((AVFrame_ptr \<times> 64 word) list \<times> lockfree_ringbuffer) option" where
  "dequeue_n release rb 0 = Some ([], rb)"
| "dequeue_n release rb (Suc n) =
     (case dequeue release rb of
        Some (Some x, rb') \<Rightarrow>
          (case dequeue_n release rb' n of
             Some (xs, rb'') \<Rightarrow> Some (x # xs, rb'')
           | None \<Rightarrow> None)
      | _ \<Rightarrow> None)"

text \<open>
  A producer that claims a slot with \<^verbatim>\<open>write_begin\<close> and gives it up with
  \<^verbatim>\<open>write_abort\<close>.
\<close>

definition claim_and_abort :: "lockfree_ringbuffer \<Rightarrow> lockfree_ringbuffer option" where
  "claim_and_abort rb =
     (case lockfree_ringbuffer_write_begin rb of
        Some (Some slot, rb') \<Rightarrow> Some (lockfree_ringbuffer_write_abort rb' slot)
      | _ \<Rightarrow> None)"


section \<open>Frame cache (frame-cache.h, frame-cache.c)\<close>

subsection \<open>The frames of the decoding library\<close>

text \<open>
  \<^verbatim>\<open>AVFrame\<close> objects belong to the decoding library, which is not part of the program.
  They live in a heap: a list of cells, the address of a frame being its index; a cell
  holds the picture of a live frame (a number that stands for its planes and properties)
  or \<open>None\<close> once the frame is freed. The library's \<^verbatim>\<open>av_frame_clone\<close> returns a new
  frame with the picture of its argument, or \<^verbatim>\<open>NULL\<close> when it cannot allocate, which
  the argument \<open>ok\<close> decides (and, here, when its argument is not a live frame);
  \<^verbatim>\<open>av_frame_free\<close> frees a frame.
\<close>

type_synonym picture = nat

type_synonym frame_heap = "picture option list"

definition live :: "frame_heap \<Rightarrow> nat \<Rightarrow> bool" where
  "live h a = (a < length h \<and> h ! a \<noteq> None)"

definition av_frame_clone :: "bool \<Rightarrow> frame_heap \<Rightarrow> nat \<Rightarrow> AVFrame_ptr \<times> frame_heap" where
  "av_frame_clone ok h src =
     (if ok \<and> live h src then (Some (length h), h @ [h ! src]) else (None, h))"

definition av_frame_free :: "frame_heap \<Rightarrow> nat \<Rightarrow> frame_heap" where
  "av_frame_free h a = h[a := None]"

subsection \<open>The cache\<close>

text \<open>\<^verbatim>\<open>#define FRAME_CACHE_SIZE 30\<close>, and \<^verbatim>\<open>UINT64_MAX\<close>.\<close>

definition FRAME_CACHE_SIZE :: nat where
  "FRAME_CACHE_SIZE = 30"

definition UINT64_MAX :: "64 word" where
  "UINT64_MAX = - 1"

datatype cache_state = CACHE_EMPTY | CACHE_LOADING | CACHE_READY

text \<open>
  \<^verbatim>\<open>struct cached_frame\<close>. Its fields \<^verbatim>\<open>frame\<close>, \<^verbatim>\<open>pts\<close>, \<^verbatim>\<open>state\<close>,
  \<^verbatim>\<open>width\<close> and \<^verbatim>\<open>height\<close> carry the prefix \<open>cf_\<close>. The converted pixels \<open>bgra_data\<close> are a buffer the entry
  owns, kept here by value (its bytes), \<open>None\<close> for \<^verbatim>\<open>NULL\<close>.
\<close>

record cached_frame =
  cf_frame :: AVFrame_ptr
  cf_pts :: "64 word"
  ref_count :: "32 word"
  cf_state :: cache_state
  bgra_data :: "8 word list option"
  bgra_linesize :: "32 word list"
  cf_width :: "32 word"
  cf_height :: "32 word"
  last_access_time :: "64 word"
  access_count :: "32 word"

record frame_cache =
  entries :: "cached_frame list"
  current_gen :: "32 word"
  hits :: "64 word"
  misses :: "64 word"
  evictions :: "64 word"
  insertions :: "64 word"
  enabled :: bool
  cache_converted_frames :: bool
  max_entries :: "32 word"

text \<open>\<^verbatim>\<open>frame_cache_init\<close>: the struct is zeroed, then set up.\<close>

definition frame_cache_init :: "bool \<Rightarrow> frame_cache" where
  "frame_cache_init enable_converted_cache =
     \<lparr>entries = replicate FRAME_CACHE_SIZE
        \<lparr>cf_frame = None, cf_pts = 0, ref_count = 0, cf_state = CACHE_EMPTY, bgra_data = None,
         bgra_linesize = [0, 0, 0, 0], cf_width = 0, cf_height = 0, last_access_time = 0,
         access_count = 0\<rparr>,
      current_gen = 1, hits = 0, misses = 0, evictions = 0, insertions = 0,
      enabled = True, cache_converted_frames = enable_converted_cache,
      max_entries = word_of_nat FRAME_CACHE_SIZE\<rparr>"

text \<open>
  \<^verbatim>\<open>find_lru_entry\<close>. The loop walks \<^verbatim>\<open>entries[0 .. FRAME_CACHE_SIZE - 1]\<close> in
  order; \<open>find_lru_loop\<close> is the loop from index \<open>i\<close> on, over the entries not yet
  visited, with the two local variables. The result is the index found, \<open>-1\<close> for none.
\<close>

fun find_lru_loop :: "cached_frame list \<Rightarrow> nat \<Rightarrow> 64 word \<Rightarrow> int \<Rightarrow> int" where
  "find_lru_loop [] i oldest_time lru_idx = lru_idx"
| "find_lru_loop (e # es) i oldest_time lru_idx =
     (if cf_state e = CACHE_EMPTY then int i
      else if cf_state e = CACHE_READY \<and> ref_count e = 0 \<and> last_access_time e < oldest_time
        then find_lru_loop es (i + 1) (last_access_time e) (int i)
        else find_lru_loop es (i + 1) oldest_time lru_idx)"

definition find_lru_entry :: "frame_cache \<Rightarrow> int" where
  "find_lru_entry cache = find_lru_loop (entries cache) 0 UINT64_MAX (- 1)"

text \<open>
  \<^verbatim>\<open>frame_cache_get\<close>, with the value of \<^verbatim>\<open>os_gettime_ns()\<close> as an argument. The
  pointer it returns is the index of the entry, \<open>None\<close> for \<^verbatim>\<open>NULL\<close>.
  \<open>get_loop\<close> is the search loop from index \<open>i\<close> on.
\<close>

fun get_loop :: "cached_frame list \<Rightarrow> nat \<Rightarrow> 64 word \<Rightarrow> nat option" where
  "get_loop [] i p = None"
| "get_loop (e # es) i p =
     (if cf_state e = CACHE_READY \<and> cf_pts e = p then Some i else get_loop es (i + 1) p)"

definition frame_cache_get ::
  "frame_cache \<Rightarrow> 64 word \<Rightarrow> 64 word \<Rightarrow> nat option \<times> frame_cache" where
  "frame_cache_get cache now p =
     (if \<not> enabled cache then (None, cache)
      else case get_loop (entries cache) 0 p of
        Some i \<Rightarrow>
          (Some i,
           cache\<lparr>entries := (entries cache)[i := (entries cache ! i)
                     \<lparr>last_access_time := now,
                      access_count := access_count (entries cache ! i) + 1,
                      ref_count := ref_count (entries cache ! i) + 1\<rparr>],
                 hits := hits cache + 1\<rparr>)
      | None \<Rightarrow> (None, cache\<lparr>misses := misses cache + 1\<rparr>))"

text \<open>
  \<^verbatim>\<open>frame_cache_put\<close>. Beside the arguments of the C function it takes the frame heap,
  the value of \<^verbatim>\<open>os_gettime_ns()\<close>, and whether \<^verbatim>\<open>av_frame_clone\<close> and
  \<^verbatim>\<open>bmalloc\<close> succeed. The caller's pixel buffer and line sizes, when given, are as long
  as the function reads them: \<open>data_size\<close> bytes and four line sizes.
\<close>

definition evict_slot :: "frame_heap \<Rightarrow> cached_frame \<Rightarrow> frame_heap \<times> cached_frame \<times> bool" where
  "evict_slot h e =
     (let (h1, e1, evicted) =
            (case cf_frame e of
               Some a \<Rightarrow> (av_frame_free h a, e\<lparr>cf_frame := None\<rparr>, True)
             | None \<Rightarrow> (h, e, False))
      in (h1, e1\<lparr>bgra_data := None\<rparr>, evicted))"

definition store_converted ::
  "bool \<Rightarrow> bool \<Rightarrow> 8 word list option \<Rightarrow> 32 word list option \<Rightarrow> 32 word \<Rightarrow> 32 word \<Rightarrow>
     cached_frame \<Rightarrow> cached_frame" where
  "store_converted converted bmalloc_ok data linesize w ht e =
     (case (data, linesize) of
        (Some bytes, Some ls) \<Rightarrow>
          if converted then
            (let data_size = unat (hd ls * ht) in
             if bmalloc_ok
             then e\<lparr>bgra_data := Some (take data_size bytes), bgra_linesize := take 4 ls,
                    cf_width := w, cf_height := ht\<rparr>
             else e\<lparr>bgra_data := None\<rparr>)
          else e
      | _ \<Rightarrow> e)"

definition frame_cache_put ::
  "frame_heap \<Rightarrow> frame_cache \<Rightarrow> 64 word \<Rightarrow> bool \<Rightarrow> bool \<Rightarrow>
     AVFrame_ptr \<Rightarrow> 64 word \<Rightarrow> 8 word list option \<Rightarrow> 32 word list option \<Rightarrow>
     32 word \<Rightarrow> 32 word \<Rightarrow> bool \<times> frame_heap \<times> frame_cache" where
  "frame_cache_put h cache now clone_ok bmalloc_ok fr p data linesize w ht =
     (case fr of
        None \<Rightarrow> (False, h, cache)
      | Some src \<Rightarrow>
          if \<not> enabled cache then (False, h, cache)
          else
            (let slot = find_lru_entry cache in
             if slot < 0 then (False, h, cache)
             else
               (let i = nat slot;
                    e0 = (entries cache ! i)\<lparr>cf_state := CACHE_LOADING\<rparr>;
                    (h1, e1, evicted) = evict_slot h e0;
                    cache1 = (if evicted then cache\<lparr>evictions := evictions cache + 1\<rparr> else cache);
                    (cl, h2) = av_frame_clone clone_ok h1 src;
                    e2 = e1\<lparr>cf_frame := cl\<rparr>
                in if cl = None
                   then (False, h2,
                         cache1\<lparr>entries := (entries cache)[i := e2\<lparr>cf_state := CACHE_EMPTY\<rparr>]\<rparr>)
                   else
                     (let e3 = store_converted (cache_converted_frames cache) bmalloc_ok
                                 data linesize w ht e2;
                          e4 = e3\<lparr>cf_pts := p, last_access_time := now, access_count := 0,
                                  ref_count := 0, cf_state := CACHE_READY\<rparr>
                      in (True, h2,
                          cache1\<lparr>entries := (entries cache)[i := e4],
                                 insertions := insertions cache + 1\<rparr>)))))"

text \<open>\<^verbatim>\<open>frame_cache_invalidate\<close> and \<^verbatim>\<open>frame_cache_release\<close> (the entry by its index).\<close>

fun invalidate_loop :: "frame_heap \<Rightarrow> cached_frame list \<Rightarrow> frame_heap \<times> cached_frame list" where
  "invalidate_loop h [] = (h, [])"
| "invalidate_loop h (e # es) =
     (let h1 = (case cf_frame e of Some a \<Rightarrow> av_frame_free h a | None \<Rightarrow> h);
          (h2, es') = invalidate_loop h1 es
      in (h2, e\<lparr>cf_state := CACHE_EMPTY, cf_frame := None, bgra_data := None\<rparr> # es'))"

definition frame_cache_invalidate :: "frame_heap \<Rightarrow> frame_cache \<Rightarrow> frame_heap \<times> frame_cache" where
  "frame_cache_invalidate h cache =
     (let (h', es) = invalidate_loop h (entries cache)
      in (h', cache\<lparr>current_gen := current_gen cache + 1, entries := es\<rparr>))"

definition frame_cache_release :: "frame_cache \<Rightarrow> nat \<Rightarrow> frame_cache" where
  "frame_cache_release cache i =
     cache\<lparr>entries := (entries cache)[i := (entries cache ! i)
                \<lparr>ref_count := ref_count (entries cache ! i) - 1\<rparr>]\<rparr>"

subsection \<open>Invariant of a cache in use\<close>

text \<open>
  What holds of a cache from \<^verbatim>\<open>frame_cache_init\<close> on, through every
  \<^verbatim>\<open>frame_cache_get\<close>, \<^verbatim>\<open>frame_cache_put\<close>, \<^verbatim>\<open>frame_cache_release\<close> and
  \<^verbatim>\<open>frame_cache_invalidate\<close>, as long as the clock \<^verbatim>\<open>os_gettime_ns()\<close> stays below
  \<^verbatim>\<open>UINT64_MAX\<close>: the array has its \<^verbatim>\<open>FRAME_CACHE_SIZE\<close> entries, the cache is enabled,
  and a ready entry holds a frame and was last accessed before \<^verbatim>\<open>UINT64_MAX\<close>.
\<close>

definition cache_inv :: "frame_cache \<Rightarrow> bool" where
  "cache_inv cache =
     (length (entries cache) = FRAME_CACHE_SIZE \<and> enabled cache \<and>
      list_all (\<lambda>e. cf_state e \<noteq> CACHE_READY \<or>
                     (cf_frame e \<noteq> None \<and> last_access_time e < UINT64_MAX))
               (entries cache))"

section \<open>Decoder: display thread, hardware fallback, pause and resume (ffmpeg-decoder.c)\<close>

subsection \<open>The decoder\<close>

text \<open>
  The fields of \<^verbatim>\<open>struct ffmpeg_decoder\<close> that the functions below read or write.
  Pointers are addresses (\<open>None\<close> for \<^verbatim>\<open>NULL\<close>); the atomic flags are booleans. The
  frame buffer \<^verbatim>\<open>decoder->buffer\<close> is flattened into \<open>frames\<close>, \<open>write_idx\<close>,
  \<open>read_idx\<close> and \<open>count\<close>; the fields \<^verbatim>\<open>frame\<close> and \<^verbatim>\<open>pts\<close> of
  \<^verbatim>\<open>struct buffered_frame\<close> carry the prefix \<open>bf_\<close>, and \<^verbatim>\<open>decoder->clock\<close> is
  \<open>dec_clock\<close>. Of the performance monitor only
  the counter \<open>frames_dropped\<close> is kept.
\<close>

datatype decoder_state =
  DECODER_STATE_STOPPED | DECODER_STATE_PAUSED_READY | DECODER_STATE_PLAYING

record buffered_frame =
  bf_frame :: AVFrame_ptr
  bf_pts :: "64 word"
  system_time :: "64 word"
  ready :: bool
  is_hw_frame :: bool
  zero_copy :: bool
  nv12_data :: "nat option list"

record perf_monitor_t =
  frames_dropped :: "32 word"

record ffmpeg_decoder =
  format_ctx :: "nat option"
  hw_decoding_active :: bool
  sws_ctx :: "nat option"
  initialized :: bool
  playing :: bool
  looping :: bool
  seek_request :: bool
  seek_target :: "64 word"
  waiting_for_first_frame :: bool
  waiting_for_first_audio :: bool
  thread_running :: bool
  display_thread_created :: bool
  stopping :: bool
  interrupt_request :: bool
  dec_clock :: clock
  frames :: "buffered_frame list"
  write_idx :: int
  read_idx :: int
  count :: int
  global_timeline_start_ms :: "64 word"
  frame_pts :: "64 word"
  video_cb :: "nat option"
  opaque :: "nat option"
  perf_monitor :: "perf_monitor_t option"
  state :: decoder_state
  preserved_seek_position :: "64 word"
  preserved_playback_position :: "64 word"
  state_preserved_time :: "64 word"
  seek_was_in_progress :: bool

text \<open>
  \<^verbatim>\<open>ffmpeg_decoder_create\<close>, when its allocations succeed: the struct is zeroed, the
  state is \<^verbatim>\<open>DECODER_STATE_STOPPED\<close>, the playback rate is 1.0, and the three buffer
  slots hold the frames \<^verbatim>\<open>av_frame_alloc\<close> returned (the argument) and are not ready.
\<close>

definition ffmpeg_decoder_create :: "nat list \<Rightarrow> ffmpeg_decoder" where
  "ffmpeg_decoder_create allocated =
     \<lparr>format_ctx = None, hw_decoding_active = False, sws_ctx = None, initialized = False, playing = False,
      looping = False, seek_request = False, seek_target = 0,
      waiting_for_first_frame = False, waiting_for_first_audio = False,
      thread_running = False, display_thread_created = False, stopping = False,
      interrupt_request = False,
      dec_clock = \<lparr>system_start = 0, media_start_pts = 0, last_pts = 0, last_system = 0,
               playback_rate = 1\<rparr>,
      frames = map (\<lambda>a. \<lparr>bf_frame = Some a, bf_pts = 0, system_time = 0, ready = False,
                           is_hw_frame = False, zero_copy = False,
                           nv12_data = [None, None]\<rparr>) (take 3 allocated),
      write_idx = 0, read_idx = 0, count = 0, global_timeline_start_ms = 0, frame_pts = 0,
      video_cb = None, opaque = None, perf_monitor = Some \<lparr>frames_dropped = 0\<rparr>,
      state = DECODER_STATE_STOPPED, preserved_seek_position = 0,
      preserved_playback_position = 0, state_preserved_time = 0,
      seek_was_in_progress = False\<rparr>"

subsection \<open>One cycle of the display thread\<close>

text \<open>
  The body of the loop of \<^verbatim>\<open>display_thread\<close> from \<^verbatim>\<open>Get next frame to display\<close> to
  its end: the thread is playing, is not asked to stop, and holds the buffer lock. The
  function takes the function-static \<^verbatim>\<open>drop_count\<close> and the value of
  \<^verbatim>\<open>os_gettime_ns()\<close> (one reading serves the cycle), and returns what the cycle did,
  the new \<^verbatim>\<open>drop_count\<close> and the decoder. Sleeping and the condition variable are not
  modelled. A frame handed to the sink (\<^verbatim>\<open>video_cb\<close>) is the result \<open>Delivered\<close>, with
  the index and timestamp of the buffered frame and the representation chosen; the
  planes themselves are left out, and so is the release of a zero-copy frame in the heap.
  The result is \<open>None\<close> where the C is undefined: an index outside the buffer, the
  overflow of the signed product \<^verbatim>\<open>time_until_display_ms * 1000000\<close>, and the cycle
  of a frame that is due while the decoder is stopping or has no sink. On that path the
  thread releases \<^verbatim>\<open>decoder->mutex\<close> only and then locks \<^verbatim>\<open>buffer.lock\<close>, which it
  still holds: the mutex is a default one (\<^verbatim>\<open>pthread_mutex_init(&lock, NULL)\<close>), locking
  it again is undefined, and a thread that blocks there never marks the frame consumed.
\<close>

datatype payload = ZeroCopyRef | AcceleratedCopy | ConvertedPlanes

datatype display_action =
    NotReady
  | SkippedInvalid
  | DroppedLate
  | WaitEarly
  | Nv12Missing
  | Delivered int "64 word" payload

text \<open>Marking the frame at \<open>current_read_idx\<close> consumed, at the end of the cycle.\<close>

definition consume_frame :: "ffmpeg_decoder \<Rightarrow> int \<Rightarrow> ffmpeg_decoder" where
  "consume_frame d idx =
     (let bf = frames d ! nat idx
      in d\<lparr>frames := (frames d)[nat idx :=
                bf\<lparr>bf_frame := (if zero_copy bf \<and> bf_frame bf \<noteq> None then None else bf_frame bf),
                   ready := False, zero_copy := False\<rparr>],
           read_idx := (read_idx d + 1) mod 3,
           count := count d - 1\<rparr>)"

definition display_cycle ::
  "int \<Rightarrow> ffmpeg_decoder \<Rightarrow> 64 word \<Rightarrow> (display_action \<times> int \<times> ffmpeg_decoder) option" where
  "display_cycle drop_count d now_ns =
     (let current_read_idx = read_idx d in
      if current_read_idx < 0 \<or> int (length (frames d)) \<le> current_read_idx then None
      else
        (let buf_frame = frames d ! nat current_read_idx in
         if \<not> ready buf_frame \<or> count d = 0 then Some (NotReady, drop_count, d)
         else
           (let display_time = system_time buf_frame;
                p = bf_pts buf_frame in
            if sint p < 0 \<or> display_time = 0
            then Some (SkippedInvalid, drop_count,
                       d\<lparr>frames := (frames d)[nat current_read_idx := buf_frame\<lparr>ready := False\<rparr>],
                         read_idx := (read_idx d + 1) mod 3,
                         count := count d - 1\<rparr>)
            else
              (let current_time_ms = ns_to_ms now_ns;
                   time_until_display_ms = sint (display_time - current_time_ms);
                   time_until_display = time_until_display_ms * 1000000 in
               if time_until_display < - (2 ^ 63) \<or> 2 ^ 63 \<le> time_until_display then None
               else if time_until_display < - 500000000
               then Some (DroppedLate, drop_count + 1,
                          consume_frame
                            (d\<lparr>perf_monitor :=
                                  map_option (\<lambda>m. m\<lparr>frames_dropped := frames_dropped m + 1\<rparr>)
                                    (perf_monitor d)\<rparr>)
                            current_read_idx)
               else if 3000000 < time_until_display then Some (WaitEarly, drop_count, d)
               else if \<not> stopping d \<and> video_cb d \<noteq> None \<and> opaque d \<noteq> None
               then
                 (if zero_copy buf_frame \<and> bf_frame buf_frame \<noteq> None
                  then Some (Delivered current_read_idx p ZeroCopyRef, drop_count,
                             consume_frame
                               (d\<lparr>frame_pts := p, dec_clock := clock_update (dec_clock d) now_ns p\<rparr>)
                               current_read_idx)
                  else if is_hw_frame buf_frame
                  then
                    (if list_all (\<lambda>x. x \<noteq> None) (take 2 (nv12_data buf_frame))
                     then Some (Delivered current_read_idx p AcceleratedCopy, drop_count,
                                consume_frame
                                  (d\<lparr>frame_pts := p, dec_clock := clock_update (dec_clock d) now_ns p\<rparr>)
                                  current_read_idx)
                     else Some (Nv12Missing, drop_count, d))
                  else Some (Delivered current_read_idx p ConvertedPlanes, drop_count,
                             consume_frame
                               (d\<lparr>frame_pts := p, dec_clock := clock_update (dec_clock d) now_ns p\<rparr>)
                               current_read_idx))
               else None))))"

subsection \<open>Hardware frame transfer in the decoder thread\<close>

text \<open>
  The block of \<^verbatim>\<open>decoder_thread\<close> that handles the transfer of a hardware frame, for
  one decoded frame. What the frame and the library bring is the event: whether the
  frame has the hardware pixel format, whether \<^verbatim>\<open>av_hwframe_transfer_data\<close> succeeds,
  whether the frame in software form (the transferred frame, or the decoded frame when
  it is a software frame) is NV12 or P010, which need no scaler, and what
  \<^verbatim>\<open>sws_getContext\<close> returns if it is called. The function takes the function-static
  \<^verbatim>\<open>hw_failure_count\<close> and returns how the frame goes on, the new counter and the
  decoder: \<open>Skip\<close> is the \<^verbatim>\<open>continue\<close> that abandons the frame, \<open>UseTransferred\<close>
  and \<open>UseDecoded\<close> say which frame the rest of the loop works on.
\<close>

record hw_event =
  is_hw_format :: bool
  transfer_ok :: bool
  direct_format :: bool
  new_scaler :: "nat option"

datatype hw_outcome = Skip | UseTransferred | UseDecoded

definition hw_transfer_step ::
  "int \<Rightarrow> ffmpeg_decoder \<Rightarrow> hw_event \<Rightarrow> hw_outcome \<times> int \<times> ffmpeg_decoder" where
  "hw_transfer_step hw_failure_count d ev =
     (if hw_decoding_active d \<and> is_hw_format ev then
        if \<not> transfer_ok ev then
          (let n = hw_failure_count + 1 in
           if 5 < n then (Skip, 0, d\<lparr>hw_decoding_active := False\<rparr>)
           else (Skip, n, d))
        else if sws_ctx d = None \<and> \<not> direct_format ev then
          (case new_scaler ev of
             None \<Rightarrow> (Skip, hw_failure_count, d\<lparr>hw_decoding_active := False\<rparr>)
           | Some sc \<Rightarrow> (UseTransferred, hw_failure_count, d\<lparr>sws_ctx := Some sc\<rparr>))
        else (UseTransferred, hw_failure_count, d)
      else (UseDecoded, hw_failure_count, d))"

text \<open>A run of the loop over the events of successive frames.\<close>

fun hw_transfer_run ::
  "int \<Rightarrow> ffmpeg_decoder \<Rightarrow> hw_event list \<Rightarrow> hw_outcome list \<times> int \<times> ffmpeg_decoder" where
  "hw_transfer_run n d [] = ([], n, d)"
| "hw_transfer_run n d (ev # evs) =
     (let (out, n1, d1) = hw_transfer_step n d ev;
          (outs, n2, d2) = hw_transfer_run n1 d1 evs
      in (out # outs, n2, d2))"

text \<open>
  The block followed by the test of the scaler, for a frame that has a timestamp:
  \<^verbatim>\<open>needs_scaler\<close> holds unless the accelerated path is active and the frame the loop
  works on (\<^verbatim>\<open>sw_frame\<close>) is NV12 or P010, and a frame that needs the scaler while
  \<^verbatim>\<open>sws_ctx\<close> is \<^verbatim>\<open>NULL\<close> is skipped. \<^verbatim>\<open>sw_frame\<close> is the transferred frame after a
  transfer and the decoded frame otherwise; a decoded frame in the hardware pixel
  format is neither NV12 nor P010. The first component of the result says whether the
  frame goes on to the conversion and the frame buffer. \<open>frame_run\<close> is a run of the
  loop over successive frames.
\<close>

definition frame_step ::
  "int \<Rightarrow> ffmpeg_decoder \<Rightarrow> hw_event \<Rightarrow> bool \<times> int \<times> ffmpeg_decoder" where
  "frame_step hw_failure_count d ev =
     (let (out, n1, d1) = hw_transfer_step hw_failure_count d ev;
          sw_direct = (if out = UseTransferred then direct_format ev
                       else \<not> is_hw_format ev \<and> direct_format ev);
          needs_scaler = \<not> (hw_decoding_active d1 \<and> sw_direct)
      in (out \<noteq> Skip \<and> \<not> (needs_scaler \<and> sws_ctx d1 = None), n1, d1))"

fun frame_run ::
  "int \<Rightarrow> ffmpeg_decoder \<Rightarrow> hw_event list \<Rightarrow> bool list \<times> int \<times> ffmpeg_decoder" where
  "frame_run n d [] = ([], n, d)"
| "frame_run n d (ev # evs) =
     (let (ok, n1, d1) = frame_step n d ev;
          (oks, n2, d2) = frame_run n1 d1 evs
      in (ok # oks, n2, d2))"

text \<open>
  The counter as the specification words it, for comparison: the number of transfer
  failures in a row, which a successful transfer brings back to zero. It is the length
  of the run of failures that ends the list of events.
\<close>

fun spec_consecutive_failures :: "hw_event list \<Rightarrow> nat" where
  "spec_consecutive_failures [] = 0"
| "spec_consecutive_failures (ev # evs) =
     (if list_all (\<lambda>e. \<not> transfer_ok e) (ev # evs) then Suc (length evs)
      else spec_consecutive_failures evs)"

subsection \<open>Pause in the ready state, and resume\<close>

text \<open>
  \<^verbatim>\<open>ffmpeg_decoder_pause_ready\<close> and \<^verbatim>\<open>ffmpeg_decoder_resume\<close>, with the value of
  \<^verbatim>\<open>os_gettime_ns()\<close> as an argument. The decoder pointer is not \<^verbatim>\<open>NULL\<close>. The
  signal that \<^verbatim>\<open>resume\<close> sends on the buffer's condition variable is not modelled.
\<close>

definition ffmpeg_decoder_pause_ready :: "ffmpeg_decoder \<Rightarrow> 64 word \<Rightarrow> ffmpeg_decoder" where
  "ffmpeg_decoder_pause_ready d now_ns =
     (if \<not> initialized d then d
      else
        (let d1 = d\<lparr>state := DECODER_STATE_PAUSED_READY,
                     state_preserved_time := ns_to_ms now_ns,
                     preserved_playback_position := frame_pts d\<rparr>;
             d2 = (if seek_request d1
                   then d1\<lparr>seek_was_in_progress := True,
                           preserved_seek_position := seek_target d1\<rparr>
                   else d1\<lparr>seek_was_in_progress := False\<rparr>)
         in d2\<lparr>playing := False\<rparr>))"

definition ffmpeg_decoder_resume :: "ffmpeg_decoder \<Rightarrow> 64 word \<Rightarrow> bool \<times> ffmpeg_decoder" where
  "ffmpeg_decoder_resume d now_ns =
     (if \<not> initialized d then (False, d)
      else if state d \<noteq> DECODER_STATE_PAUSED_READY then (False, d)
      else
        (let current_time = ns_to_ms now_ns in
         if 10000 < current_time - state_preserved_time d
         then (False, d\<lparr>state := DECODER_STATE_STOPPED\<rparr>)
         else
           (let d1 = d\<lparr>state := DECODER_STATE_PLAYING, playing := True\<rparr>;
                d2 = (if seek_was_in_progress d1
                      then d1\<lparr>seek_request := True,
                              seek_target := preserved_seek_position d1\<rparr>
                      else d1)
            in (True, d2))))"

definition ffmpeg_decoder_is_paused_ready :: "ffmpeg_decoder \<Rightarrow> bool" where
  "ffmpeg_decoder_is_paused_ready d =
     (initialized d \<and> state d = DECODER_STATE_PAUSED_READY)"

subsection \<open>Starting and stopping the threads\<close>

text \<open>
  \<^verbatim>\<open>ffmpeg_decoder_play_with_timeline\<close>: \<open>thread_running\<close> and
  \<open>display_thread_created\<close> say that the decoder thread and the display thread exist.
  The last argument is whether \<^verbatim>\<open>pthread_create\<close> of the display thread succeeds (the
  result of the one of the decoder thread is not looked at by the code).
\<close>

definition ffmpeg_decoder_play_with_timeline ::
  "ffmpeg_decoder \<Rightarrow> 64 word \<Rightarrow> bool \<Rightarrow> ffmpeg_decoder" where
  "ffmpeg_decoder_play_with_timeline d timeline_start_ms display_created =
     (if \<not> initialized d then d
      else
        (let d1 = d\<lparr>interrupt_request := False,
                     global_timeline_start_ms := timeline_start_ms,
                     state := DECODER_STATE_PLAYING,
                     playing := True,
                     looping := True,
                     waiting_for_first_frame := True,
                     waiting_for_first_audio := True,
                     stopping := False\<rparr>;
             d2 = (if \<not> display_thread_created d1 \<and> display_created
                   then d1\<lparr>display_thread_created := True\<rparr> else d1)
         in if \<not> thread_running d2 then d2\<lparr>thread_running := True\<rparr> else d2))"

text \<open>
  \<^verbatim>\<open>ffmpeg_decoder_stop_thread\<close>, which the source plugin calls from its timer thread
  2000 ms (\<^verbatim>\<open>DECODER_SHUTDOWN_DELAY_MS\<close>) after a deactivation that was not cancelled.
  Both threads see \<open>stopping\<close> and end, and the function joins them. It assigns
  neither \<open>state\<close> nor \<open>state_preserved_time\<close>.
\<close>

definition ffmpeg_decoder_stop_thread :: "ffmpeg_decoder \<Rightarrow> ffmpeg_decoder" where
  "ffmpeg_decoder_stop_thread d =
     (let d1 = d\<lparr>interrupt_request := True, stopping := True, playing := False\<rparr>;
          d2 = (if display_thread_created d1 then d1\<lparr>display_thread_created := False\<rparr> else d1);
          d3 = (if thread_running d2 then d2\<lparr>thread_running := False\<rparr> else d2)
      in d3\<lparr>stopping := False\<rparr>)"


section \<open>Properties of binary64 rounding\<close>

lemma rhe_upper: "of_int (round_half_even z) \<le> z + 1 / 2"
  unfolding round_half_even_def Let_def by (auto; linarith)

lemma rhe_lower: "z - 1 / 2 \<le> of_int (round_half_even z)"
  unfolding round_half_even_def Let_def by (auto; linarith)

lemma rhe_of_int: "round_half_even (of_int m) = m"
  unfolding round_half_even_def Let_def by simp

lemma binade_le_of_lt:
  assumes "0 < x" "x < 2 ^ n"
  shows "binade x < int n"
proof (cases "1 \<le> x")
  case True
  then have p: "0 < \<lfloor>x\<rfloor>" by linarith
  have "\<lfloor>x\<rfloor> < 2 ^ n" using assms(2) by (simp add: floor_less_iff)
  then have "bitlen \<lfloor>x\<rfloor> \<le> int n"
    using p by (simp add: bitlen_le_iff_power)
  then show ?thesis using True assms(1) by (simp add: binade_def)
next
  case False
  have "0 \<le> bitlen (\<lceil>1 / x\<rceil> - 1)" by (rule bitlen_nonneg)
  moreover have "1 / x > 1" using False assms(1) by simp
  then have "\<lceil>1 / x\<rceil> - 1 > 0" by linarith
  then have "bitlen (\<lceil>1 / x\<rceil> - 1) \<noteq> 0" by (simp add: bitlen_eq_zero_iff)
  ultimately show ?thesis using False assms(1) by (simp add: binade_def)
qed

lemma binade_lower:
  assumes "0 < x"
  shows "2 powi (binade x) \<le> x"
proof (cases "1 \<le> x")
  case True
  then have p: "0 < \<lfloor>x\<rfloor>" by linarith
  have b1: "1 \<le> bitlen \<lfloor>x\<rfloor>" using p bitlen_eq_zero_iff[of "\<lfloor>x\<rfloor>"] bitlen_nonneg[of "\<lfloor>x\<rfloor>"] by linarith
  have "(2::int) ^ nat (bitlen \<lfloor>x\<rfloor> - 1) \<le> \<lfloor>x\<rfloor>" using bitlen_bounds[OF p] by simp
  then have "real_of_int (2 ^ nat (bitlen \<lfloor>x\<rfloor> - 1)) \<le> x"
    by (simp only: le_floor_iff)
  then have "(2::real) ^ nat (bitlen \<lfloor>x\<rfloor> - 1) \<le> x" by simp
  moreover have "(2::real) powi (bitlen \<lfloor>x\<rfloor> - 1) = 2 ^ nat (bitlen \<lfloor>x\<rfloor> - 1)"
    using b1 by (simp add: power_int_nonneg_exp)
  ultimately show ?thesis using True assms by (simp add: binade_def)
next
  case False
  define n where "n = \<lceil>1 / x\<rceil> - 1"
  have x1: "1 / x > 1" using False assms(1) by simp
  then have n: "n > 0" unfolding n_def by linarith
  have nb: "n < 2 ^ nat (bitlen n)" using bitlen_bounds[OF n] by simp
  then have "n + 1 \<le> 2 ^ nat (bitlen n)" by simp
  then have "real_of_int (n + 1) \<le> real_of_int (2 ^ nat (bitlen n))" by (simp only: of_int_le_iff)
  moreover have "1 / x \<le> real_of_int (n + 1)" unfolding n_def by simp
  ultimately have "1 / x \<le> 2 ^ nat (bitlen n)" by simp
  then have "1 / 2 ^ nat (bitlen n) \<le> x" using assms
    by (simp add: field_simps)
  moreover have "(2::real) powi (- bitlen n) = 1 / 2 ^ nat (bitlen n)"
    using bitlen_nonneg[of n] by (simp add: power_int_minus_divide power_int_nonneg_exp)
  ultimately show ?thesis using False assms by (simp add: binade_def n_def)
qed


lemma pow2_neg:
  assumes "e \<le> 52"
  shows "(2::real) powi (e - 52) = 1 / 2 ^ nat (52 - e)"
proof -
  have "(2::real) powi (e - 52) = 2 powi (- (52 - e))" by simp
  also have "\<dots> = 1 / 2 powi (52 - e)" by (rule power_int_minus_divide)
  also have "(2::real) powi (52 - e) = 2 ^ nat (52 - e)"
    using assms by (simp add: power_int_nonneg_exp)
  finally show ?thesis .
qed

lemma round_double_of_int:
  assumes "0 < n" "n < 2 ^ 53"
  shows "round_double (of_int n) = Some (of_int n)"
proof -
  define x where "x = real_of_int n"
  have x0: "0 < x" using assms(1) by (simp add: x_def)
  have "x < 2 ^ 53" using assms(2) unfolding x_def
    by (metis of_int_less_iff of_int_numeral of_int_power)
  then have "binade x < int 53" using x0 by (intro binade_le_of_lt)
  then have e: "max (binade x) (- 1022) \<le> 52" by simp
  define j where "j = nat (52 - max (binade x) (- 1022))"
  have u: "(2::real) powi (max (binade x) (- 1022) - 52) = 1 / 2 ^ j"
    unfolding j_def using e by (rule pow2_neg)
  have z: "x / (1 / 2 ^ j) = real_of_int (n * 2 ^ j)" by (simp add: x_def)
  have y: "real_of_int (round_half_even (x / (1 / 2 ^ j))) * (1 / 2 ^ j) = x"
    unfolding z rhe_of_int by (simp add: x_def)
  have "\<bar>x\<bar> < 2 ^ 1024"
  proof -
    have "x < 2 ^ 53" by fact
    also have "(2::real) ^ 53 \<le> 2 ^ 1024" by (rule power_increasing) simp_all
    finally show ?thesis using x0 by simp
  qed
  then have "\<not> 2 ^ 1024 \<le> \<bar>x\<bar>" by simp
  then show ?thesis
    using x0 unfolding round_double_def Let_def u y x_def[symmetric] by simp
qed

lemma round_double_quotient:
  assumes K: "0 < K" "K < 2 ^ 53" and d: "0 \<le> d" "d < 2 ^ 53"
  shows "\<exists>y. round_double (real_of_int d / real_of_int K) = Some y \<and> \<lfloor>y\<rfloor> = d div K"
proof (cases "d = 0")
  case True
  then show ?thesis by (simp add: round_double_def)
next
  case False
  define x where "x = real_of_int d / real_of_int K"
  define k where "k = d div K"
  define r where "r = d mod K"
  have dpos: "0 < d" using False d(1) by simp
  have Kr: "0 < real_of_int K" using K(1) by simp
  have x0: "0 < x" unfolding x_def using dpos Kr by simp
  have dK: "d = k * K + r" unfolding k_def r_def by simp
  have "r < K" unfolding r_def using K(1) by (rule pos_mod_bound)
  moreover have "0 \<le> r" unfolding r_def using K(1) by simp
  ultimately have r: "0 \<le> r" "r + 1 \<le> K" by linarith+
  have k0: "0 \<le> k" unfolding k_def using d(1) K(1) by (simp add: pos_imp_zdiv_nonneg_iff)
  have xk: "x = real_of_int k + real_of_int r / real_of_int K"
    unfolding x_def dK using Kr by (simp add: field_simps)
  have xlo: "real_of_int k \<le> x" unfolding xk using r(1) Kr by simp
  have "real_of_int r + 1 \<le> real_of_int K" using r(2) by linarith
  then have "real_of_int r / real_of_int K \<le> 1 - 1 / real_of_int K"
    using Kr by (simp add: field_simps)
  then have xhi: "x \<le> real_of_int k + 1 - 1 / real_of_int K" unfolding xk by simp
  have d53: "real_of_int d < 2 ^ 53" using d(2)
    by (metis of_int_less_iff of_int_numeral of_int_power)
  have K53: "real_of_int K < 2 ^ 53" using K(2)
    by (metis of_int_less_iff of_int_numeral of_int_power)
  have xK: "x * real_of_int K < 2 ^ 53" unfolding x_def using Kr d53 by simp
  have "1 \<le> real_of_int K" using K(1) by linarith
  then have "x \<le> real_of_int d" unfolding x_def using dpos
    by (simp add: field_simps mult_le_cancel_left1)
  then have x53: "x < 2 ^ 53" using d53 by linarith
  define e where "e = max (binade x) (- 1022)"
  have "binade x < int 53" using x0 x53 by (intro binade_le_of_lt)
  then have e52: "e \<le> 52" unfolding e_def by simp
  define j where "j = nat (52 - e)"
  define u where "u = (1::real) / 2 ^ j"
  have u: "(2::real) powi (e - 52) = u" unfolding u_def j_def using e52 by (rule pow2_neg)
  have u0: "0 < u" unfolding u_def by simp
  have uinv: "1 / u = 2 ^ j" unfolding u_def by simp
  \<comment> \<open>the grid is finer than 2 / K\<close>
  have ufine: "u * real_of_int K < 2"
  proof (cases "binade x \<le> - 1022")
    case True
    then have "e = - 1022" unfolding e_def by simp
    then have "u = 1 / 2 ^ 1074" unfolding u_def j_def by simp
    moreover have "(1::real) / 2 ^ 1074 \<le> 1 / 2 ^ 53"
      by (intro divide_left_mono power_increasing) simp_all
    ultimately have "u \<le> 1 / 2 ^ 53" by simp
    then have "u * real_of_int K \<le> 1 / 2 ^ 53 * real_of_int K"
      using Kr by (intro mult_right_mono) simp_all
    also have "\<dots> < 1" using K53 by simp
    finally show ?thesis by simp
  next
    case False
    then have eb: "e = binade x" unfolding e_def by simp
    have "u = 2 powi (binade x - 52)" using u eb by simp
    also have "\<dots> = 2 powi binade x * (1 / 2 ^ 52)"
      by (simp add: power_int_diff)
    also have "\<dots> \<le> x * (1 / 2 ^ 52)"
      using binade_lower[OF x0] by (intro mult_right_mono) simp_all
    finally have "u * real_of_int K \<le> x * (1 / 2 ^ 52) * real_of_int K"
      using Kr by (intro mult_right_mono) simp_all
    also have "\<dots> = (x * real_of_int K) / 2 ^ 52" by simp
    also have "\<dots> < 2 ^ 53 / 2 ^ 52" using xK by (intro divide_strict_right_mono) simp_all
    finally show ?thesis by simp
  qed
  define m where "m = round_half_even (x / u)"
  define y where "y = real_of_int m * u"
  have zlo: "real_of_int (k * 2 ^ j) \<le> x / u"
  proof -
    have "real_of_int k * 2 ^ j \<le> x * 2 ^ j" using xlo by (intro mult_right_mono) simp_all
    then show ?thesis unfolding u_def by simp
  qed
  have "real_of_int (k * 2 ^ j) - 1 / 2 \<le> real_of_int m"
    using zlo rhe_lower[of "x / u"] unfolding m_def by linarith
  then have "real_of_int (k * 2 ^ j) < real_of_int m + 1" by linarith
  then have "real_of_int (k * 2 ^ j) < real_of_int (m + 1)" by simp
  then have "k * 2 ^ j < m + 1" by (simp only: of_int_less_iff)
  then have mlo: "k * 2 ^ j \<le> m" by simp
  have half: "1 / 2 < 2 ^ j / real_of_int K"
  proof -
    have "real_of_int K < 2 / u" using ufine u0 by (simp add: field_simps)
    then have "real_of_int K < 2 * 2 ^ j" unfolding u_def by simp
    then show ?thesis using Kr by (simp add: field_simps)
  qed
  have zhi: "x / u \<le> real_of_int ((k + 1) * 2 ^ j) - 2 ^ j / real_of_int K"
  proof -
    have "x * 2 ^ j \<le> (real_of_int k + 1 - 1 / real_of_int K) * 2 ^ j"
      using xhi by (intro mult_right_mono) simp_all
    then show ?thesis unfolding u_def by (simp add: algebra_simps)
  qed
  have "real_of_int m \<le> x / u + 1 / 2" unfolding m_def by (rule rhe_upper)
  then have "real_of_int m < real_of_int ((k + 1) * 2 ^ j)" using zhi half by linarith
  then have mhi: "m < (k + 1) * 2 ^ j" by (simp only: of_int_less_iff)
  have ylo: "real_of_int k \<le> y"
  proof -
    have "real_of_int (k * 2 ^ j) \<le> real_of_int m" using mlo by (simp only: of_int_le_iff)
    then have "real_of_int (k * 2 ^ j) * u \<le> real_of_int m * u"
      using u0 by (intro mult_right_mono) simp_all
    then show ?thesis unfolding y_def u_def by simp
  qed
  have yhi: "y < real_of_int k + 1"
  proof -
    have "real_of_int m < real_of_int ((k + 1) * 2 ^ j)" using mhi by (simp only: of_int_less_iff)
    then have "real_of_int m * u < real_of_int ((k + 1) * 2 ^ j) * u"
      using u0 by (intro mult_strict_right_mono) simp_all
    then show ?thesis unfolding y_def u_def by simp
  qed
  have fl: "\<lfloor>y\<rfloor> = k" using ylo yhi by (simp add: floor_unique)
  have "real_of_int k \<le> x" by fact
  then have "real_of_int k < 2 ^ 53" using x53 by linarith
  then have "y < 2 ^ 53 + 1" using yhi by linarith
  also have "(2::real) ^ 53 + 1 \<le> 2 ^ 1024" by simp
  finally have "y < 2 ^ 1024" .
  moreover have "0 \<le> y" using ylo k0 by simp
  ultimately have fin: "\<not> 2 ^ 1024 \<le> \<bar>y\<bar>" by simp
  have "round_double x = Some y"
    using x0 fin unfolding round_double_def Let_def e_def[symmetric] u m_def[symmetric] y_def[symmetric]
    by simp
  then show ?thesis using fl unfolding x_def k_def by simp
qed

lemma binade_upper:
  assumes "0 < x"
  shows "x < 2 powi (binade x + 1)"
proof (cases "1 \<le> x")
  case True
  then have p: "0 < \<lfloor>x\<rfloor>" by linarith
  have b1: "1 \<le> bitlen \<lfloor>x\<rfloor>"
    using p bitlen_eq_zero_iff[of "\<lfloor>x\<rfloor>"] bitlen_nonneg[of "\<lfloor>x\<rfloor>"] by linarith
  have "\<lfloor>x\<rfloor> < 2 ^ nat (bitlen \<lfloor>x\<rfloor>)" using bitlen_bounds[OF p] by simp
  then have "x < real_of_int (2 ^ nat (bitlen \<lfloor>x\<rfloor>))" by (simp only: floor_less_iff)
  then have "x < 2 ^ nat (bitlen \<lfloor>x\<rfloor>)" by simp
  moreover have "(2::real) powi (bitlen \<lfloor>x\<rfloor> - 1 + 1) = 2 ^ nat (bitlen \<lfloor>x\<rfloor>)"
    using b1 by (simp add: power_int_nonneg_exp)
  ultimately show ?thesis using True assms by (simp add: binade_def)
next
  case False
  define n where "n = \<lceil>1 / x\<rceil> - 1"
  have x1: "1 / x > 1" using False assms(1) by simp
  then have n: "n > 0" unfolding n_def by linarith
  have b1: "1 \<le> bitlen n"
    using n bitlen_eq_zero_iff[of n] bitlen_nonneg[of n] by linarith
  have "(2::int) ^ nat (bitlen n - 1) \<le> n" using bitlen_bounds[OF n] by simp
  then have "real_of_int (2 ^ nat (bitlen n - 1)) \<le> real_of_int n" by (simp only: of_int_le_iff)
  moreover have "real_of_int n < 1 / x" unfolding n_def by linarith
  ultimately have "real_of_int (2 ^ nat (bitlen n - 1)) < 1 / x" by (rule le_less_trans)
  then have "2 ^ nat (bitlen n - 1) < 1 / x" by simp
  then have "x < 1 / 2 ^ nat (bitlen n - 1)" using assms by (simp add: field_simps)
  moreover have "(2::real) powi (- bitlen n + 1) = 1 / 2 ^ nat (bitlen n - 1)"
  proof -
    have "(2::real) powi (- bitlen n + 1) = 2 powi (- (bitlen n - 1))" by simp
    also have "\<dots> = 1 / 2 powi (bitlen n - 1)" by (rule power_int_minus_divide)
    also have "(2::real) powi (bitlen n - 1) = 2 ^ nat (bitlen n - 1)"
      using b1 by (simp add: power_int_nonneg_exp)
    finally show ?thesis .
  qed
  ultimately show ?thesis using False assms by (simp add: binade_def n_def)
qed

lemma binade_mono:
  assumes "0 < x" "x \<le> y"
  shows "binade x \<le> binade y"
proof (rule ccontr)
  assume "\<not> binade x \<le> binade y"
  then have "binade y + 1 \<le> binade x" by simp
  then have "(2::real) powi (binade y + 1) \<le> 2 powi binade x"
    by (intro power_int_increasing) simp_all
  moreover have "2 powi binade x \<le> x" using assms(1) by (rule binade_lower)
  moreover have "y < 2 powi (binade y + 1)" using assms by (intro binade_upper) simp
  ultimately show False using assms(2) by linarith
qed

lemma rhe_mono:
  assumes "x \<le> y"
  shows "round_half_even x \<le> round_half_even y"
proof (cases "\<lfloor>x\<rfloor> < \<lfloor>y\<rfloor>")
  case True
  have "round_half_even x \<le> \<lfloor>x\<rfloor> + 1" unfolding round_half_even_def Let_def by simp
  moreover have "\<lfloor>y\<rfloor> \<le> round_half_even y" unfolding round_half_even_def Let_def by simp
  ultimately show ?thesis using True by linarith
next
  case False
  then have "\<lfloor>x\<rfloor> = \<lfloor>y\<rfloor>" using floor_mono[OF assms] by linarith
  then show ?thesis using assms unfolding round_half_even_def Let_def by auto
qed

lemma round_double_nonneg:
  assumes "0 \<le> x" "round_double x = Some a"
  shows "0 \<le> a"
proof (cases "x = 0")
  case True
  then show ?thesis using assms by (simp add: round_double_def)
next
  case False
  define u where "u = (2::real) powi (max (binade x) (- 1022) - 52)"
  have u0: "0 < u" unfolding u_def by simp
  have "0 \<le> x / u" using assms(1) u0 by simp
  then have "round_half_even 0 \<le> round_half_even (x / u)" by (rule rhe_mono)
  then have "0 \<le> round_half_even (x / u)" using rhe_of_int[of 0] by simp
  then have "0 \<le> real_of_int (round_half_even (x / u)) * u" using u0 by simp
  moreover have "a = real_of_int (round_half_even (x / u)) * u"
    using assms(2) False unfolding round_double_def Let_def u_def[symmetric]
    by (simp split: if_splits)
  ultimately show ?thesis by simp
qed

lemma round_double_mono:
  assumes "0 \<le> x" "x \<le> y" "round_double x = Some a" "round_double y = Some b"
  shows "a \<le> b"
proof (cases "x = 0")
  case True
  then have "a = 0" using assms(3) by (simp add: round_double_def)
  moreover have "0 \<le> b" using assms by (intro round_double_nonneg[of y b]) simp_all
  ultimately show ?thesis by simp
next
  case False
  then have x0: "0 < x" using assms(1) by simp
  then have y0: "0 < y" using assms(2) by simp
  define ex where "ex = max (binade x) (- 1022)"
  define ey where "ey = max (binade y) (- 1022)"
  define ux where "ux = (2::real) powi (ex - 52)"
  define uy where "uy = (2::real) powi (ey - 52)"
  have ux0: "0 < ux" unfolding ux_def by simp
  have uy0: "0 < uy" unfolding uy_def by simp
  have a: "a = real_of_int (round_half_even (x / ux)) * ux"
    using assms(3) x0 unfolding round_double_def Let_def ex_def[symmetric] ux_def[symmetric]
    by (simp split: if_splits)
  have b: "b = real_of_int (round_half_even (y / uy)) * uy"
    using assms(4) y0 unfolding round_double_def Let_def ey_def[symmetric] uy_def[symmetric]
    by (simp split: if_splits)
  have exy: "ex \<le> ey" unfolding ex_def ey_def using binade_mono[OF x0 assms(2)] by simp
  show ?thesis
  proof (cases "ex = ey")
    case True
    then have uu: "ux = uy" unfolding ux_def uy_def by simp
    have "x / uy \<le> y / uy" using assms(2) uy0 by (simp add: divide_right_mono)
    then have "round_half_even (x / uy) \<le> round_half_even (y / uy)" by (rule rhe_mono)
    then have "real_of_int (round_half_even (x / uy)) \<le> real_of_int (round_half_even (y / uy))"
      by (simp only: of_int_le_iff)
    then show ?thesis unfolding a b uu using uy0 by (intro mult_right_mono) simp_all
  next
    case False
    then have lt: "ex + 1 \<le> ey" using exy by simp
    then have eyb: "ey = binade y" unfolding ey_def ex_def by simp
    have p53: "(2::real) powi (ex + 1) = 2 ^ 53 * ux"
    proof -
      have "ex + 1 = 53 + (ex - 52)" by simp
      then have "(2::real) powi (ex + 1) = 2 powi (53 + (ex - 52))" by (rule arg_cong)
      also have "\<dots> = 2 powi 53 * 2 powi (ex - 52)" by (rule power_int_add) simp
      finally show ?thesis unfolding ux_def by simp
    qed
    have p52: "(2::real) powi ey = 2 ^ 52 * uy"
    proof -
      have "ey = 52 + (ey - 52)" by simp
      then have "(2::real) powi ey = 2 powi (52 + (ey - 52))" by (rule arg_cong)
      also have "\<dots> = 2 powi 52 * 2 powi (ey - 52)" by (rule power_int_add) simp
      finally show ?thesis unfolding uy_def by simp
    qed
    have "x < 2 powi (binade x + 1)" using x0 by (rule binade_upper)
    also have "\<dots> \<le> 2 powi (ex + 1)" unfolding ex_def by (intro power_int_increasing) simp_all
    finally have "x \<le> 2 ^ 53 * ux" unfolding p53 by simp
    then have "x / ux \<le> real_of_int (2 ^ 53)" using ux0 by (simp add: field_simps)
    then have "round_half_even (x / ux) \<le> round_half_even (real_of_int (2 ^ 53))" by (rule rhe_mono)
    then have "round_half_even (x / ux) \<le> 2 ^ 53" unfolding rhe_of_int .
    then have "real_of_int (round_half_even (x / ux)) \<le> real_of_int (2 ^ 53)"
      by (simp only: of_int_le_iff)
    then have "a \<le> real_of_int (2 ^ 53) * ux" unfolding a using ux0 by (intro mult_right_mono) simp_all
    then have a1: "a \<le> 2 powi (ex + 1)" unfolding p53 by simp
    have mid: "(2::real) powi (ex + 1) \<le> 2 powi ey" using lt by (intro power_int_increasing) simp_all
    have "2 powi binade y \<le> y" using y0 by (rule binade_lower)
    then have "2 ^ 52 * uy \<le> y" using p52 eyb by simp
    then have "real_of_int (2 ^ 52) \<le> y / uy" using uy0 by (simp add: field_simps)
    then have "round_half_even (real_of_int (2 ^ 52)) \<le> round_half_even (y / uy)" by (rule rhe_mono)
    then have "2 ^ 52 \<le> round_half_even (y / uy)" unfolding rhe_of_int .
    then have "real_of_int (2 ^ 52) \<le> real_of_int (round_half_even (y / uy))"
      by (simp only: of_int_le_iff)
    then have "real_of_int (2 ^ 52) * uy \<le> b" unfolding b using uy0 by (intro mult_right_mono) simp_all
    then have "2 powi ey \<le> b" unfolding p52 by simp
    then show ?thesis using a1 mid by linarith
  qed
qed


text \<open>
  In the normal range a rounding moves a number by at most \<open>2\<^sup>-\<^sup>5\<^sup>3\<close> of itself.
\<close>

lemma binade_ge:
  assumes "0 < x" "2 powi n \<le> x"
  shows "n \<le> binade x"
proof (rule ccontr)
  assume "\<not> n \<le> binade x"
  then have "binade x + 1 \<le> n" by simp
  then have "(2::real) powi (binade x + 1) \<le> 2 powi n"
    by (intro power_int_increasing) simp_all
  moreover have "x < 2 powi (binade x + 1)" using assms(1) by (rule binade_upper)
  ultimately show False using assms(2) by linarith
qed

lemma round_double_rel:
  assumes lo: "2 powi (- 1022) \<le> x" and hi: "x < 2 ^ 1023"
  shows "\<exists>y. round_double x = Some y \<and> \<bar>y - x\<bar> \<le> x / 2 ^ 53"
proof -
  have "(0::real) < 2 powi (- 1022)" by simp
  then have x0: "0 < x" using lo by linarith
  have b: "- 1022 \<le> binade x" using x0 lo by (rule binade_ge)
  then have e: "max (binade x) (- 1022) = binade x" by simp
  define u where "u = (2::real) powi (binade x - 52)"
  have u0: "0 < u" unfolding u_def by simp
  have "u = 2 powi binade x * (1 / 2 ^ 52)" unfolding u_def by (simp add: power_int_diff)
  also have "\<dots> \<le> x * (1 / 2 ^ 52)"
    using binade_lower[OF x0] by (intro mult_right_mono) simp_all
  finally have ux: "u \<le> x / 2 ^ 52" by simp
  define m where "m = round_half_even (x / u)"
  define y where "y = real_of_int m * u"
  have "real_of_int m \<le> x / u + 1 / 2" unfolding m_def by (rule rhe_upper)
  then have "real_of_int m * u \<le> (x / u + 1 / 2) * u" using u0 by (intro mult_right_mono) simp_all
  then have yhi: "y \<le> x + u / 2" unfolding y_def using u0 by (simp add: algebra_simps)
  have "x / u - 1 / 2 \<le> real_of_int m" unfolding m_def by (rule rhe_lower)
  then have "(x / u - 1 / 2) * u \<le> real_of_int m * u" using u0 by (intro mult_right_mono) simp_all
  then have ylo: "x - u / 2 \<le> y" unfolding y_def using u0 by (simp add: algebra_simps)
  have "u / 2 \<le> x / 2 ^ 53" using ux by simp
  then have err: "\<bar>y - x\<bar> \<le> x / 2 ^ 53" using yhi ylo by linarith
  have "0 \<le> x / u" using x0 u0 by simp
  then have "round_half_even 0 \<le> round_half_even (x / u)" by (rule rhe_mono)
  then have "0 \<le> m" unfolding m_def using rhe_of_int[of 0] by simp
  then have y0: "0 \<le> y" unfolding y_def using u0 by simp
  have "x / 2 ^ 53 \<le> x / 1" using x0 by (intro divide_left_mono) simp_all
  then have "y \<le> x + x" using err by linarith
  also have "\<dots> < 2 ^ 1023 + 2 ^ 1023" using hi by linarith
  also have "\<dots> = (2::real) ^ 1024" by simp
  finally have "y < 2 ^ 1024" .
  then have fin: "\<not> 2 ^ 1024 \<le> \<bar>y\<bar>" using y0 by simp
  have "round_double x = Some y"
    using x0 fin unfolding round_double_def Let_def e u_def[symmetric] m_def[symmetric] y_def[symmetric]
    by simp
  then show ?thesis using err by blast
qed


section \<open>Properties of the clock\<close>

lemma int64_sub_sint:
  assumes "- (2 ^ 63) \<le> sint a - sint b" "sint a - sint b < 2 ^ 63"
  shows "int64_sub a b = Some (a - b)" "sint (a - b) = sint a - sint b"
  using assms
  by (simp_all add: int64_sub_def Let_def sint_word_diff signed_take_bit_int_eq_self)

lemma double_to_uint64_nonneg:
  assumes "0 \<le> x" "x < 2 ^ 64"
  shows "double_to_uint64 x = Some (word_of_int \<lfloor>x\<rfloor>)"
proof -
  have "\<lfloor>x\<rfloor> < 2 ^ 64" using assms(2) by (simp add: floor_less_iff)
  moreover have "0 \<le> \<lfloor>x\<rfloor>" using assms(1) by simp
  ultimately show ?thesis using assms(1)
    by (simp add: double_to_uint64_def trunc_real_def Let_def)
qed

lemma unat_word_of_int_nonneg:
  "0 \<le> t \<Longrightarrow> t < 2 ^ 64 \<Longrightarrow> unat (word_of_int t :: 64 word) = nat t"
  by (simp add: unat_eq_nat_uint uint_word_of_int take_bit_int_eq_self) 


lemma unat_start_plus:
  assumes "0 \<le> t" "int (unat (s::64 word)) + t < 2 ^ 64"
  shows "unat (s + word_of_int t) = unat s + nat t"
proof -
  have t: "t < 2 ^ 64" using assms by linarith
  have "unat (word_of_int t :: 64 word) = nat t"
    using assms(1) t by (rule unat_word_of_int_nonneg)
  moreover have "unat s + nat t < 2 ^ 64"
  proof -
    have "unat s + nat t = nat (int (unat s) + t)"
      using assms(1) by (simp only: nat_add_distrib of_nat_0_le_iff nat_int)
    also have "\<dots> < 2 ^ 64" using assms by (simp only: nat_less_iff) simp
    finally show ?thesis .
  qed
  ultimately show ?thesis
    using unat_add_lem[of s "word_of_int t"] by simp
qed



lemma int64_sub_SomeD:
  assumes "int64_sub a b = Some d"
  shows "sint d = sint a - sint b"
  using assms
  by (auto simp: int64_sub_def Let_def sint_word_diff signed_take_bit_int_eq_self
      split: if_splits)

lemma double_to_uint64_SomeD:
  assumes "double_to_uint64 x = Some t"
  shows "t = word_of_int (trunc_real x) \<and> 0 \<le> trunc_real x \<and> trunc_real x < 2 ^ 64"
  using assms by (auto simp: double_to_uint64_def Let_def split: if_splits)

lemma trunc_real_mono:
  assumes "0 \<le> x" "x \<le> y"
  shows "trunc_real x \<le> trunc_real y"
  using assms by (simp add: trunc_real_def floor_mono)

text \<open>
  When \<open>1000 * playback_rate\<close> is a whole number \<open>K\<close> below \<open>2\<^sup>5\<^sup>3\<close> (1000 at the rate
  1.0) and the timestamp is less than \<open>2\<^sup>5\<^sup>3\<close> microseconds after the start of the
  epoch, the roundings change nothing: the deadline is \<open>system_start\<close> plus the whole
  part of the difference divided by \<open>K\<close>.
\<close>

lemma clock_get_integral_rate:
  assumes K: "0 < K" "K < 2 ^ 53" "1000 * playback_rate c = real_of_int K"
    and le: "sint (media_start_pts c) \<le> sint pts"
    and fit: "sint pts - sint (media_start_pts c) < 2 ^ 53"
  shows "clock_get_system_time_for_pts c pts =
         Some (system_start c + word_of_int ((sint pts - sint (media_start_pts c)) div K))"
proof -
  define d where "d = sint pts - sint (media_start_pts c)"
  have d0: "0 \<le> d" unfolding d_def using le by simp
  have d53: "d < 2 ^ 53" unfolding d_def using fit .
  have "(2::int) ^ 53 \<le> 2 ^ 63" by simp
  then have hi: "sint pts - sint (media_start_pts c) < 2 ^ 63" using fit by linarith
  have "- (2 ^ 63) \<le> (0::int)" by simp
  then have lo: "- (2 ^ 63) \<le> sint pts - sint (media_start_pts c)"
    using d0 unfolding d_def by (rule order_trans)
  have s1: "int64_sub pts (media_start_pts c) = Some (pts - media_start_pts c)"
    and s2: "sint (pts - media_start_pts c) = d"
    using int64_sub_sint[OF lo hi] unfolding d_def by simp_all
  have c1: "round_double (real_of_int d) = Some (real_of_int d)"
  proof (cases "d = 0")
    case True
    then show ?thesis by (simp add: round_double_def)
  next
    case False
    then have "0 < d" using d0 by simp
    then show ?thesis using d53 by (rule round_double_of_int)
  qed
  have c2: "round_double (real_of_int K) = Some (real_of_int K)"
    using K(1,2) by (rule round_double_of_int)
  obtain y where y: "round_double (real_of_int d / real_of_int K) = Some y"
    and fl: "\<lfloor>y\<rfloor> = d div K"
    using round_double_quotient[OF K(1,2) d0 d53] by blast
  have q0: "0 \<le> d div K" using d0 K(1) by (simp add: pos_imp_zdiv_nonneg_iff)
  then have "0 \<le> \<lfloor>y\<rfloor>" using fl by simp
  then have y0: "0 \<le> y" by simp
  have "d div K \<le> d" using zdiv_mono2[OF d0, of 1 K] K(1) by simp
  then have "\<lfloor>y\<rfloor> < 2 ^ 53" using fl d53 by linarith
  also have "(2::int) ^ 53 \<le> 2 ^ 64" by simp
  finally have "\<lfloor>y\<rfloor> < 2 ^ 64" .
  then have "y < real_of_int (2 ^ 64)" by (simp only: floor_less_iff)
  then have y64: "y < 2 ^ 64" by simp
  have c3: "double_to_uint64 y = Some (word_of_int (d div K))"
    using double_to_uint64_nonneg[OF y0 y64] fl by simp
  have Kne: "real_of_int K \<noteq> 0" using K(1) by simp
  have c1': "round_double (real_of_int (sint (pts - media_start_pts c))) = Some (real_of_int d)"
    unfolding s2 by (rule c1)
  show ?thesis
    unfolding clock_get_system_time_for_pts_def s1 K(3) d_def[symmetric]
    using c1' c2 y c3 Kne by simp
qed

lemma clock_get_SomeD:
  assumes "clock_get_system_time_for_pts c pts = Some d"
  shows "(round_double (1000 * playback_rate c) = None \<and> d = system_start c) \<or>
         (\<exists>pd a k q t. int64_sub pts (media_start_pts c) = Some pd \<and>
            round_double (real_of_int (sint pd)) = Some a \<and>
            round_double (1000 * playback_rate c) = Some k \<and> k \<noteq> 0 \<and>
            round_double (a / k) = Some q \<and> double_to_uint64 q = Some t \<and>
            d = system_start c + t)"
  using assms unfolding clock_get_system_time_for_pts_def
  by (auto split: option.splits if_splits)

text \<open>
  At any positive rate the deadline does not decrease with the timestamp, as long as
  both deadlines are defined and the later one has not wrapped around \<open>2\<^sup>6\<^sup>4\<close>.
\<close>

lemma clock_get_mono:
  assumes r: "0 < playback_rate c"
    and le1: "sint (media_start_pts c) \<le> sint pts1"
    and le: "sint pts1 \<le> sint pts2"
    and g1: "clock_get_system_time_for_pts c pts1 = Some d1"
    and g2: "clock_get_system_time_for_pts c pts2 = Some d2"
    and nowrap: "system_start c \<le> d2"
  shows "d1 \<le> d2"
proof (cases "round_double (1000 * playback_rate c)")
  case None
  then have "d1 = system_start c" "d2 = system_start c"
    using clock_get_SomeD[OF g1] clock_get_SomeD[OF g2] by auto
  then show ?thesis by simp
next
  case (Some k)
  obtain pd1 a1 q1 t1 where p1: "int64_sub pts1 (media_start_pts c) = Some pd1"
    and a1: "round_double (real_of_int (sint pd1)) = Some a1"
    and k0: "k \<noteq> 0"
    and q1: "round_double (a1 / k) = Some q1"
    and t1: "double_to_uint64 q1 = Some t1"
    and d1: "d1 = system_start c + t1"
    using clock_get_SomeD[OF g1] Some by auto
  obtain pd2 a2 q2 t2 where p2: "int64_sub pts2 (media_start_pts c) = Some pd2"
    and a2: "round_double (real_of_int (sint pd2)) = Some a2"
    and q2: "round_double (a2 / k) = Some q2"
    and t2: "double_to_uint64 q2 = Some t2"
    and d2: "d2 = system_start c + t2"
    using clock_get_SomeD[OF g2] Some by auto
  have "0 \<le> 1000 * playback_rate c" using r by simp
  then have "0 \<le> k" using Some by (rule round_double_nonneg)
  then have kpos: "0 < k" using k0 by simp
  have s1: "sint pd1 = sint pts1 - sint (media_start_pts c)" using p1 by (rule int64_sub_SomeD)
  have s2: "sint pd2 = sint pts2 - sint (media_start_pts c)" using p2 by (rule int64_sub_SomeD)
  have "0 \<le> sint pts1 - sint (media_start_pts c)" using le1 by linarith
  then have x1: "0 \<le> real_of_int (sint pd1)" unfolding s1 by (simp only: of_int_0_le_iff)
  have "sint pts1 - sint (media_start_pts c) \<le> sint pts2 - sint (media_start_pts c)"
    using le by linarith
  then have x12: "real_of_int (sint pd1) \<le> real_of_int (sint pd2)"
    unfolding s1 s2 by (simp only: of_int_le_iff)
  have a1nn: "0 \<le> a1" using x1 a1 by (rule round_double_nonneg)
  have a12: "a1 \<le> a2" using x1 x12 a1 a2 by (rule round_double_mono)
  have y1: "0 \<le> a1 / k" using a1nn kpos by simp
  have y12: "a1 / k \<le> a2 / k" using a12 kpos by (simp add: divide_right_mono)
  have q1nn: "0 \<le> q1" using y1 q1 by (rule round_double_nonneg)
  have q12: "q1 \<le> q2" using y1 y12 q1 q2 by (rule round_double_mono)
  have tr: "trunc_real q1 \<le> trunc_real q2" using q1nn q12 by (rule trunc_real_mono)
  note T1 = double_to_uint64_SomeD[OF t1]
  note T2 = double_to_uint64_SomeD[OF t2]
  have u1: "unat t1 = nat (trunc_real q1)" using T1 by (simp add: unat_word_of_int_nonneg)
  have u2: "unat t2 = nat (trunc_real q2)" using T2 by (simp add: unat_word_of_int_nonneg)
  have "nat (trunc_real q1) \<le> nat (trunc_real q2)" using tr by simp
  then have t12: "t1 \<le> t2" by (simp only: word_le_nat_alt u1 u2)
  have "system_start c \<le> system_start c + t2" using nowrap unfolding d2 .
  with t12 show ?thesis unfolding d1 d2 by (rule word_plus_mono_right)
qed


text \<open>
  At a rate between 0.001 and 1000 and less than \<open>2\<^sup>5\<^sup>1\<close> microseconds after the start
  of the epoch, the three roundings move the quotient by less than one: the deadline is
  within one millisecond of the whole part of the exact quotient.
\<close>

lemma clock_get_within_one:
  assumes r: "1 / 1000 \<le> playback_rate c" "playback_rate c \<le> 1000"
    and le: "sint (media_start_pts c) \<le> sint pts"
    and fit: "sint pts - sint (media_start_pts c) < 2 ^ 51"
  shows "\<exists>t. clock_get_system_time_for_pts c pts = Some (system_start c + word_of_int t) \<and>
           0 \<le> t \<and>
           \<bar>t - \<lfloor>real_of_int (sint pts - sint (media_start_pts c)) / (1000 * playback_rate c)\<rfloor>\<bar> \<le> 1"
proof -
  define d where "d = sint pts - sint (media_start_pts c)"
  define P where "P = 1000 * playback_rate c"
  have d0: "0 \<le> d" unfolding d_def using le by simp
  have d51: "d < 2 ^ 51" unfolding d_def using fit .
  have "(2::int) ^ 51 \<le> 2 ^ 63" by simp
  then have hi: "sint pts - sint (media_start_pts c) < 2 ^ 63" using fit by linarith
  have "- (2 ^ 63) \<le> (0::int)" by simp
  then have lo: "- (2 ^ 63) \<le> sint pts - sint (media_start_pts c)"
    using d0 unfolding d_def by (rule order_trans)
  have s1: "int64_sub pts (media_start_pts c) = Some (pts - media_start_pts c)"
    and s2: "sint (pts - media_start_pts c) = d"
    using int64_sub_sint[OF lo hi] unfolding d_def by simp_all
  have P1: "1 \<le> P" unfolding P_def using r(1) by simp
  have P6: "P \<le> 1000000" unfolding P_def using r(2) by simp
  have tiny: "(2::real) powi (- 1022) \<le> 1 / 4000000"
  proof -
    have "(2::real) powi (- 1022) = 1 / 2 powi 1022" by (rule power_int_minus_divide)
    also have "\<dots> = 1 / 2 ^ 1022" by simp
    also have "\<dots> \<le> 1 / 4000000" by (intro divide_left_mono) simp_all
    finally show ?thesis .
  qed
  have Plo: "2 powi (- 1022) \<le> P" using tiny P1 by linarith
  have "(1000000::real) < 2 ^ 1023" by simp
  then have Phi: "P < 2 ^ 1023" using P6 by linarith
  obtain k where k: "round_double P = Some k" and kerr: "\<bar>k - P\<bar> \<le> P / 2 ^ 53"
    using round_double_rel[OF Plo Phi] by blast
  have Peps: "P / 2 ^ 53 \<le> P / 2" using P1 by (intro divide_left_mono) simp_all
  have klo: "P / 2 \<le> k" using kerr Peps by linarith
  have khi: "k \<le> 2 * P" using kerr Peps P1 by linarith
  have k0: "0 < k" using klo P1 by linarith
  show ?thesis
  proof (cases "d = 0")
    case True
    have c1: "round_double (real_of_int (sint (pts - media_start_pts c))) = Some 0"
      unfolding s2 True by (simp add: round_double_def)
    have c2: "round_double (0 / k) = Some 0" by (simp add: round_double_def)
    have c3: "double_to_uint64 0 = Some 0" by (simp add: double_to_uint64_def trunc_real_def)
    have "clock_get_system_time_for_pts c pts = Some (system_start c + word_of_int 0)"
      unfolding clock_get_system_time_for_pts_def s1 P_def[symmetric]
      using c1 k c2 c3 k0 by simp
    moreover have "(0::int) \<le> 0 \<and> \<bar>0 - \<lfloor>real_of_int d / P\<rfloor>\<bar> \<le> 1" unfolding True by simp
    ultimately show ?thesis unfolding d_def[symmetric] P_def[symmetric] by blast
  next
    case False
    then have dpos: "0 < d" using d0 by simp
    have "(2::int) ^ 51 \<le> 2 ^ 53" by simp
    then have d53: "d < 2 ^ 53" using d51 by linarith
    have c1: "round_double (real_of_int (sint (pts - media_start_pts c))) = Some (real_of_int d)"
      unfolding s2 using dpos d53 by (rule round_double_of_int)
    define x where "x = real_of_int d / k"
    define E where "E = real_of_int d / P"
    have dr1: "1 \<le> real_of_int d" using dpos by linarith
    have dr51: "real_of_int d < 2 ^ 51" using d51
      by (metis of_int_less_iff of_int_numeral of_int_power)
    have x0: "0 < x" unfolding x_def using dr1 k0 by simp
    have "1 / (2 * P) \<le> 1 / k" using khi k0 by (intro divide_left_mono) simp_all
    moreover have "1 / 2000000 \<le> 1 / (2 * P)" using P6 P1 by (intro divide_left_mono) simp_all
    moreover have "1 / k \<le> x" unfolding x_def using dr1 k0 by (simp add: divide_right_mono)
    ultimately have "1 / 4000000 \<le> x" by linarith
    then have xlo: "2 powi (- 1022) \<le> x" using tiny by linarith
    have "x \<le> real_of_int d / (1 / 2)" unfolding x_def using klo P1 dr1 k0
      by (intro divide_left_mono) simp_all
    then have x2d: "x \<le> 2 * real_of_int d" by simp
    then have x52: "x < 2 ^ 52" using dr51 by simp
    have "(2::real) ^ 52 \<le> 2 ^ 1023" by (rule power_increasing) simp_all
    then have xhi: "x < 2 ^ 1023" using x52 by linarith
    obtain q where q: "round_double x = Some q" and qerr: "\<bar>q - x\<bar> \<le> x / 2 ^ 53"
      using round_double_rel[OF xlo xhi] by blast
    have xE: "\<bar>x - E\<bar> \<le> x / 2 ^ 53"
    proof -
      have Ppos: "0 < P" using P1 by linarith
      have "x - E = x * ((P - k) / P)" unfolding x_def E_def using k0 Ppos
        by (simp add: field_simps)
      then have "\<bar>x - E\<bar> = x * (\<bar>P - k\<bar> / P)" using x0 Ppos by (simp add: abs_mult)
      also have "\<bar>P - k\<bar> / P \<le> (P / 2 ^ 53) / P"
        using kerr Ppos by (intro divide_right_mono) (simp_all add: abs_minus_commute)
      then have "x * (\<bar>P - k\<bar> / P) \<le> x * ((P / 2 ^ 53) / P)"
        using x0 by (intro mult_left_mono) simp_all
      also have "(P / 2 ^ 53) / P = 1 / 2 ^ 53" using Ppos by simp
      finally show ?thesis by simp
    qed
    have x53: "x / 2 ^ 53 < 1 / 2"
    proof -
      have "x / 2 ^ 53 < 2 ^ 52 / 2 ^ 53" using x52 by (intro divide_strict_right_mono) simp_all
      then show ?thesis by simp
    qed
    have qE: "\<bar>q - E\<bar> < 1" using qerr xE x53 by linarith
    have "0 \<le> x" using x0 by simp
    then have q0: "0 \<le> q" using q by (rule round_double_nonneg)
    have "q < x + 1 / 2" using qerr x53 by linarith
    also have "\<dots> < 2 ^ 52 + 1 / 2" using x52 by simp
    also have "\<dots> \<le> (2::real) ^ 64" by simp
    finally have q64: "q < 2 ^ 64" .
    have c3: "double_to_uint64 q = Some (word_of_int \<lfloor>q\<rfloor>)"
      using q0 q64 by (rule double_to_uint64_nonneg)
    have kne: "k \<noteq> 0" using k0 by simp
    have g: "clock_get_system_time_for_pts c pts = Some (system_start c + word_of_int \<lfloor>q\<rfloor>)"
      unfolding clock_get_system_time_for_pts_def s1 P_def[symmetric]
      using c1 k q c3 kne unfolding x_def by simp
    have "q \<le> E + 1" using qE by linarith
    then have "\<lfloor>q\<rfloor> \<le> \<lfloor>E + 1\<rfloor>" by (rule floor_mono)
    then have f1: "\<lfloor>q\<rfloor> \<le> \<lfloor>E\<rfloor> + 1" by simp
    have "E \<le> q + 1" using qE by linarith
    then have "\<lfloor>E\<rfloor> \<le> \<lfloor>q + 1\<rfloor>" by (rule floor_mono)
    then have f2: "\<lfloor>E\<rfloor> \<le> \<lfloor>q\<rfloor> + 1" by simp
    have "\<bar>\<lfloor>q\<rfloor> - \<lfloor>E\<rfloor>\<bar> \<le> 1" using f1 f2 by linarith
    moreover have "0 \<le> \<lfloor>q\<rfloor>" using q0 by simp
    ultimately show ?thesis using g unfolding E_def d_def[symmetric] P_def[symmetric] by blast
  qed
qed


text \<open>Lengths in bits of the numbers that the evaluations below round.\<close>

lemma bitlen_2p62_513: "bitlen 4611686018427388417 = 63"
  by code_simp

lemma bitlen_2p62_ms: "bitlen 4611686018427388 = 53"
  by code_simp

lemma bitlen_1000: "bitlen 1000 = 10"
  by code_simp
lemma bitlen_33000: "bitlen 33000 = 16" by code_simp
lemma bitlen_66000: "bitlen 66000 = 17" by code_simp
lemma bitlen_33: "bitlen 33 = 6" by code_simp
lemma bitlen_66: "bitlen 66 = 7" by code_simp


text \<open>
  C1, as stated, fails for a timestamp far from the start of the epoch: the conversion
  of the difference to \<^verbatim>\<open>double\<close> rounds it. After \<^verbatim>\<open>clock_reset(0)\<close> at
  \<open>T = 5000\<close> ms with rate 1, the timestamp \<open>2\<^sup>6\<^sup>2 + 513\<close> microseconds is
  4611686018427388.417 ms after the start, but its deadline is
  \<open>T + 4611686018427389\<close>: neither the whole part nor the nearest integer of the
  quotient.
\<close>

theorem C1_deadline_formula_counterexample:
  "clock_get_system_time_for_pts
     (clock_reset \<lparr>system_start = 0, media_start_pts = 0, last_pts = 0, last_system = 0,
                   playback_rate = 1\<rparr> 5000000000 0) 4611686018427388417
     = Some (5000 + 4611686018427389) \<and>
   \<lfloor>real_of_int (sint (4611686018427388417 :: 64 word) - sint (0 :: 64 word)) / (1000 * 1)\<rfloor>
     = 4611686018427388 \<and>
   round (real_of_int (sint (4611686018427388417 :: 64 word) - sint (0 :: 64 word)) / (1000 * 1))
     = 4611686018427388"
proof -
  have s: "sint (4611686018427388417 :: 64 word) = 4611686018427388417" by simp
  have e1: "round_double 4611686018427388417 = Some 4611686018427388928"
    by (simp add: round_double_def binade_def round_half_even_def Let_def bitlen_2p62_513)
  have e2: "round_double (4611686018427388928 / 1000) = Some 4611686018427389"
    by (simp add: round_double_def binade_def round_half_even_def Let_def bitlen_2p62_ms)
  have e3: "round_double 1000 = Some 1000"
    by (simp add: round_double_def binade_def round_half_even_def Let_def bitlen_1000)
  have e4: "double_to_uint64 4611686018427389 = Some 4611686018427389"
    by (simp add: double_to_uint64_def trunc_real_def)
  have "clock_get_system_time_for_pts
     (clock_reset \<lparr>system_start = 0, media_start_pts = 0, last_pts = 0, last_system = 0,
                   playback_rate = 1\<rparr> 5000000000 0) 4611686018427388417
     = Some (5000 + 4611686018427389)"
    using e1 e2 e3 e4
    by (simp add: clock_get_system_time_for_pts_def clock_reset_def int64_sub_def ns_to_ms_def)
  moreover have "\<lfloor>real_of_int (sint (4611686018427388417 :: 64 word) - sint (0 :: 64 word)) / (1000 * 1)\<rfloor>
     = 4611686018427388" unfolding s by simp
  moreover have "round (real_of_int (sint (4611686018427388417 :: 64 word) - sint (0 :: 64 word)) / (1000 * 1))
     = 4611686018427388" unfolding s by (simp add: round_def)
  ultimately show ?thesis by blast
qed


text \<open>
  C1, amended: in the epoch that \<^verbatim>\<open>clock_reset(start_pts)\<close> opens at wall-clock time
  \<open>T\<close> (milliseconds) with a playback rate \<open>r\<close> between 0.001 and 1000, the deadline
  of a timestamp with \<open>0 \<le> pts - start_pts < 2\<^sup>5\<^sup>1\<close> (microseconds) is \<open>T + t\<close> for a
  whole number \<open>t\<close> of milliseconds that differs by at most one from the whole part of
  \<open>(pts - start_pts) / (1000 r)\<close>. When \<open>1000 r\<close> is a whole number \<open>K\<close> below \<open>2\<^sup>5\<^sup>3\<close>
  (as for the rate 1.0 that the program sets) and \<open>0 \<le> pts - start_pts < 2\<^sup>5\<^sup>3\<close>, the
  deadline is exactly \<open>T\<close> plus that whole part. With \<open>start_pts = 0\<close> and rate 1 the
  deadlines of 33000 and 66000 are \<open>T + 33\<close> and \<open>T + 66\<close>.
\<close>

theorem C1_deadline_after_reset:
  "(1 / 1000 \<le> playback_rate c \<and> playback_rate c \<le> 1000 \<and>
    sint start_pts \<le> sint pts \<and> sint pts - sint start_pts < 2 ^ 51 \<longrightarrow>
      (\<exists>t. clock_get_system_time_for_pts (clock_reset c now_ns start_pts) pts =
             Some (ns_to_ms now_ns + word_of_int t) \<and>
           \<bar>t - \<lfloor>real_of_int (sint pts - sint start_pts) / (1000 * playback_rate c)\<rfloor>\<bar> \<le> 1)) \<and>
   (0 < K \<and> K < 2 ^ 53 \<and> 1000 * playback_rate c = real_of_int K \<and>
    sint start_pts \<le> sint pts \<and> sint pts - sint start_pts < 2 ^ 53 \<longrightarrow>
      clock_get_system_time_for_pts (clock_reset c now_ns start_pts) pts =
        Some (ns_to_ms now_ns +
              word_of_int \<lfloor>real_of_int (sint pts - sint start_pts) / (1000 * playback_rate c)\<rfloor>)) \<and>
   (playback_rate c = 1 \<longrightarrow>
      clock_get_system_time_for_pts (clock_reset c now_ns 0) 33000 = Some (ns_to_ms now_ns + 33) \<and>
      clock_get_system_time_for_pts (clock_reset c now_ns 0) 66000 = Some (ns_to_ms now_ns + 66))"
proof (intro conjI impI)
  assume h: "1 / 1000 \<le> playback_rate c \<and> playback_rate c \<le> 1000 \<and>
    sint start_pts \<le> sint pts \<and> sint pts - sint start_pts < 2 ^ 51"
  let ?c = "clock_reset c now_ns start_pts"
  have m: "media_start_pts ?c = start_pts" and s: "system_start ?c = ns_to_ms now_ns"
    and pr: "playback_rate ?c = playback_rate c"
    by (simp_all add: clock_reset_def)
  have "\<exists>t. clock_get_system_time_for_pts ?c pts = Some (system_start ?c + word_of_int t) \<and>
           0 \<le> t \<and>
           \<bar>t - \<lfloor>real_of_int (sint pts - sint (media_start_pts ?c)) / (1000 * playback_rate ?c)\<rfloor>\<bar> \<le> 1"
    using h by (intro clock_get_within_one) (simp_all only: m pr)
  then have "\<exists>t. clock_get_system_time_for_pts ?c pts = Some (system_start ?c + word_of_int t) \<and>
           \<bar>t - \<lfloor>real_of_int (sint pts - sint (media_start_pts ?c)) / (1000 * playback_rate ?c)\<rfloor>\<bar> \<le> 1"
    by blast
  then show "\<exists>t. clock_get_system_time_for_pts ?c pts = Some (ns_to_ms now_ns + word_of_int t) \<and>
           \<bar>t - \<lfloor>real_of_int (sint pts - sint start_pts) / (1000 * playback_rate c)\<rfloor>\<bar> \<le> 1"
    unfolding m s pr .
next
  assume h: "0 < K \<and> K < 2 ^ 53 \<and> 1000 * playback_rate c = real_of_int K \<and>
    sint start_pts \<le> sint pts \<and> sint pts - sint start_pts < 2 ^ 53"
  let ?c = "clock_reset c now_ns start_pts"
  have m: "media_start_pts ?c = start_pts" and s: "system_start ?c = ns_to_ms now_ns"
    and pr: "playback_rate ?c = playback_rate c"
    by (simp_all add: clock_reset_def)
  have K3: "1000 * playback_rate ?c = real_of_int K" using h unfolding pr by simp
  have fl: "\<lfloor>real_of_int (sint pts - sint start_pts) / (1000 * playback_rate c)\<rfloor> =
            (sint pts - sint start_pts) div K"
  proof -
    have "1000 * playback_rate c = real_of_int K" using h by simp
    then show ?thesis by (simp only: floor_divide_of_int_eq)
  qed
  have "clock_get_system_time_for_pts ?c pts =
          Some (system_start ?c + word_of_int ((sint pts - sint (media_start_pts ?c)) div K))"
    using h by (intro clock_get_integral_rate K3) (simp_all only: m)
  then show "clock_get_system_time_for_pts ?c pts =
        Some (ns_to_ms now_ns +
              word_of_int \<lfloor>real_of_int (sint pts - sint start_pts) / (1000 * playback_rate c)\<rfloor>)"
    unfolding fl m s .
next
  assume r: "playback_rate c = 1"
  let ?c = "clock_reset c now_ns 0"
  have K3: "1000 * playback_rate ?c = real_of_int 1000" using r by (simp add: clock_reset_def)
  have "clock_get_system_time_for_pts ?c 33000 =
          Some (system_start ?c + word_of_int ((sint (33000 :: 64 word) - sint (media_start_pts ?c)) div 1000))"
    by (rule clock_get_integral_rate[OF _ _ K3]) (simp_all add: clock_reset_def)
  then show "clock_get_system_time_for_pts ?c 33000 = Some (ns_to_ms now_ns + 33)"
    by (simp add: clock_reset_def)
next
  assume r: "playback_rate c = 1"
  let ?c = "clock_reset c now_ns 0"
  have K3: "1000 * playback_rate ?c = real_of_int 1000" using r by (simp add: clock_reset_def)
  have "clock_get_system_time_for_pts ?c 66000 =
          Some (system_start ?c + word_of_int ((sint (66000 :: 64 word) - sint (media_start_pts ?c)) div 1000))"
    by (rule clock_get_integral_rate[OF _ _ K3]) (simp_all add: clock_reset_def)
  then show "clock_get_system_time_for_pts ?c 66000 = Some (ns_to_ms now_ns + 66)"
    by (simp add: clock_reset_def)
qed


text \<open>
  The first part at the rate 3/2048 (the quotient of 1000 microseconds is 682.67 ms),
  the second at rate 2, and the scenario at \<open>T = 5000\<close>.
\<close>

theorem C1_deadline_after_reset_witness:
  "(\<exists>t. clock_get_system_time_for_pts
          (clock_reset \<lparr>system_start = 0, media_start_pts = 0, last_pts = 0, last_system = 0,
                        playback_rate = 3 / 2048\<rparr> 5000000000 0) 1000 = Some (5000 + word_of_int t) \<and>
        \<bar>t - 682\<bar> \<le> 1) \<and>
   clock_get_system_time_for_pts
     (clock_reset \<lparr>system_start = 0, media_start_pts = 0, last_pts = 0, last_system = 0,
                   playback_rate = 2\<rparr> 5000000000 1000) 41000 = Some 5020 \<and>
   clock_get_system_time_for_pts
     (clock_reset \<lparr>system_start = 0, media_start_pts = 0, last_pts = 0, last_system = 0,
                   playback_rate = 1\<rparr> 5000000000 0) 33000 = Some 5033 \<and>
   clock_get_system_time_for_pts
     (clock_reset \<lparr>system_start = 0, media_start_pts = 0, last_pts = 0, last_system = 0,
                   playback_rate = 1\<rparr> 5000000000 0) 66000 = Some 5066"
proof -
  let ?c3 = "\<lparr>system_start = 0, media_start_pts = 0, last_pts = 0, last_system = 0,
               playback_rate = 3 / 2048\<rparr>"
  let ?c2 = "\<lparr>system_start = 0, media_start_pts = 0, last_pts = 0, last_system = 0,
               playback_rate = 2\<rparr>"
  let ?c1 = "\<lparr>system_start = 0, media_start_pts = 0, last_pts = 0, last_system = 0,
               playback_rate = 1\<rparr>"
  have h3: "1 / 1000 \<le> playback_rate ?c3 \<and> playback_rate ?c3 \<le> 1000 \<and>
            sint (0 :: 64 word) \<le> sint (1000 :: 64 word) \<and>
            sint (1000 :: 64 word) - sint (0 :: 64 word) < 2 ^ 51"
    by simp
  have h: "0 < (2000::int) \<and> (2000::int) < 2 ^ 53 \<and> 1000 * playback_rate ?c2 = real_of_int 2000 \<and>
           sint (1000 :: 64 word) \<le> sint (41000 :: 64 word) \<and>
           sint (41000 :: 64 word) - sint (1000 :: 64 word) < 2 ^ 53"
    by simp
  have r1: "playback_rate ?c1 = 1" by simp
  have a: "\<exists>t. clock_get_system_time_for_pts (clock_reset ?c3 5000000000 0) 1000 =
             Some (ns_to_ms 5000000000 + word_of_int t) \<and>
           \<bar>t - \<lfloor>real_of_int (sint (1000 :: 64 word) - sint (0 :: 64 word)) /
                 (1000 * playback_rate ?c3)\<rfloor>\<bar> \<le> 1"
    using C1_deadline_after_reset[THEN conjunct1, rule_format, OF h3] .
  have g: "clock_get_system_time_for_pts (clock_reset ?c2 5000000000 1000) 41000 =
        Some (ns_to_ms 5000000000 +
              word_of_int \<lfloor>real_of_int (sint (41000 :: 64 word) - sint (1000 :: 64 word)) /
                 (1000 * playback_rate ?c2)\<rfloor>)"
    using C1_deadline_after_reset[THEN conjunct2, THEN conjunct1, rule_format, OF h] .
  have s: "clock_get_system_time_for_pts (clock_reset ?c1 5000000000 0) 33000 =
             Some (ns_to_ms 5000000000 + 33) \<and>
           clock_get_system_time_for_pts (clock_reset ?c1 5000000000 0) 66000 =
             Some (ns_to_ms 5000000000 + 66)"
    using C1_deadline_after_reset[THEN conjunct2, THEN conjunct2, rule_format, OF r1] .
  have ms: "ns_to_ms 5000000000 = 5000" by (simp add: ns_to_ms_def)
  have fl3: "\<lfloor>real_of_int (sint (1000 :: 64 word) - sint (0 :: 64 word)) /
                 (1000 * playback_rate ?c3)\<rfloor> = 682" by simp
  have fl: "\<lfloor>real_of_int (sint (41000 :: 64 word) - sint (1000 :: 64 word)) /
                 (1000 * playback_rate ?c2)\<rfloor> = 20" by simp
  show ?thesis using a g s unfolding ms fl fl3 by simp
qed


text \<open>
  C2, as stated, fails: deadlines are whole milliseconds, so the timestamps 0 and 1
  (microseconds) of one epoch have the same deadline.
\<close>

theorem C2_strict_monotone_counterexample:
  "sint (0 :: 64 word) < sint (1 :: 64 word) \<and>
   clock_get_system_time_for_pts
     (clock_reset \<lparr>system_start = 0, media_start_pts = 0, last_pts = 0, last_system = 0,
                   playback_rate = 1\<rparr> 5000000000 0) 0 = Some 5000 \<and>
   clock_get_system_time_for_pts
     (clock_reset \<lparr>system_start = 0, media_start_pts = 0, last_pts = 0, last_system = 0,
                   playback_rate = 1\<rparr> 5000000000 0) 1 = Some 5000"
proof -
  let ?c = "clock_reset \<lparr>system_start = 0, media_start_pts = 0, last_pts = 0, last_system = 0,
                   playback_rate = 1\<rparr> 5000000000 0"
  have K3: "1000 * playback_rate ?c = real_of_int 1000" by (simp add: clock_reset_def)
  have "clock_get_system_time_for_pts ?c 0 =
          Some (system_start ?c + word_of_int ((sint (0 :: 64 word) - sint (media_start_pts ?c)) div 1000))"
    by (rule clock_get_integral_rate[OF _ _ K3]) (simp_all add: clock_reset_def)
  moreover have "clock_get_system_time_for_pts ?c 1 =
          Some (system_start ?c + word_of_int ((sint (1 :: 64 word) - sint (media_start_pts ?c)) div 1000))"
    by (rule clock_get_integral_rate[OF _ _ K3]) (simp_all add: clock_reset_def)
  ultimately show ?thesis by (simp add: clock_reset_def ns_to_ms_def)
qed


text \<open>
  C2, amended: within one epoch with a positive rate \<open>r\<close>, for timestamps
  \<open>media_start_pts \<le> pts1 < pts2\<close>, whenever both deadlines are defined and the one
  of \<open>pts2\<close> has not wrapped around \<open>2\<^sup>6\<^sup>4\<close>, it is not before the one of \<open>pts1\<close>.
  With \<open>r\<close> between 0.001 and 1000, \<open>pts2\<close> less than \<open>2\<^sup>5\<^sup>1\<close> microseconds after the
  start and \<open>system_start\<close> below \<open>2\<^sup>6\<^sup>3\<close>, both deadlines are defined and in that order.
  When moreover \<open>1000 r\<close> is a whole number \<open>K\<close> below \<open>2\<^sup>5\<^sup>3\<close> (1000 at the rate 1.0
  that the program sets), \<open>pts2\<close> is less than \<open>2\<^sup>5\<^sup>3\<close> microseconds after the start
  and the sum fits in 64 bits, the deadline of \<open>pts2\<close> is strictly later as soon as the
  timestamps are at least one millisecond of wall-clock time apart
  (\<open>pts2 - pts1 \<ge> K\<close>).
\<close>

theorem C2_deadline_monotone:
  assumes r: "0 < playback_rate c"
    and le1: "sint (media_start_pts c) \<le> sint pts1"
    and lt: "sint pts1 < sint pts2"
  shows "(\<forall>d1 d2. clock_get_system_time_for_pts c pts1 = Some d1 \<and>
            clock_get_system_time_for_pts c pts2 = Some d2 \<and> system_start c \<le> d2 \<longrightarrow> d1 \<le> d2) \<and>
         (1 / 1000 \<le> playback_rate c \<and> playback_rate c \<le> 1000 \<and>
          sint pts2 - sint (media_start_pts c) < 2 ^ 51 \<and> unat (system_start c) < 2 ^ 63 \<longrightarrow>
            (\<exists>d1 d2. clock_get_system_time_for_pts c pts1 = Some d1 \<and>
               clock_get_system_time_for_pts c pts2 = Some d2 \<and> d1 \<le> d2)) \<and>
         (\<forall>K. 0 < K \<and> K < 2 ^ 53 \<and> 1000 * playback_rate c = real_of_int K \<and>
            sint pts2 - sint (media_start_pts c) < 2 ^ 53 \<and>
            int (unat (system_start c)) + (sint pts2 - sint (media_start_pts c)) div K < 2 ^ 64 \<longrightarrow>
            (\<exists>d1 d2. clock_get_system_time_for_pts c pts1 = Some d1 \<and>
               clock_get_system_time_for_pts c pts2 = Some d2 \<and> d1 \<le> d2 \<and>
               (K \<le> sint pts2 - sint pts1 \<longrightarrow> d1 < d2)))"
proof (intro conjI allI impI)
  fix d1 d2
  assume h: "clock_get_system_time_for_pts c pts1 = Some d1 \<and>
            clock_get_system_time_for_pts c pts2 = Some d2 \<and> system_start c \<le> d2"
  have le: "sint pts1 \<le> sint pts2" using lt by simp
  from h show "d1 \<le> d2" using clock_get_mono[OF r le1 le] by blast
next
  assume h: "1 / 1000 \<le> playback_rate c \<and> playback_rate c \<le> 1000 \<and>
          sint pts2 - sint (media_start_pts c) < 2 ^ 51 \<and> unat (system_start c) < 2 ^ 63"
  have r1: "1 / 1000 \<le> playback_rate c" and r2: "playback_rate c \<le> 1000"
    and fit2: "sint pts2 - sint (media_start_pts c) < 2 ^ 51"
    and s63: "unat (system_start c) < 2 ^ 63" using h by simp_all
  have fit1: "sint pts1 - sint (media_start_pts c) < 2 ^ 51" using fit2 lt by linarith
  have le2: "sint (media_start_pts c) \<le> sint pts2" using le1 lt by linarith
  have le: "sint pts1 \<le> sint pts2" using lt by simp
  define dl where "dl = sint pts2 - sint (media_start_pts c)"
  define E where "E = real_of_int dl / (1000 * playback_rate c)"
  obtain t1 where g1: "clock_get_system_time_for_pts c pts1 = Some (system_start c + word_of_int t1)"
    using clock_get_within_one[OF r1 r2 le1 fit1] by blast
  obtain t2 where g2: "clock_get_system_time_for_pts c pts2 = Some (system_start c + word_of_int t2)"
    and t20: "0 \<le> t2" and t2E: "\<bar>t2 - \<lfloor>E\<rfloor>\<bar> \<le> 1"
    using clock_get_within_one[OF r1 r2 le2 fit2] unfolding E_def dl_def by blast
  have P1: "1 \<le> 1000 * playback_rate c" using r1 by simp
  have "0 \<le> dl" unfolding dl_def using le2 by linarith
  then have dl0: "0 \<le> real_of_int dl" by (simp only: of_int_0_le_iff)
  have "E \<le> real_of_int dl / 1" unfolding E_def using P1 dl0 by (intro divide_left_mono) simp_all
  then have "E \<le> real_of_int dl" by simp
  then have "\<lfloor>E\<rfloor> \<le> \<lfloor>real_of_int dl\<rfloor>" by (rule floor_mono)
  then have "\<lfloor>E\<rfloor> \<le> dl" by simp
  then have "t2 \<le> dl + 1" using t2E by linarith
  then have t2hi: "t2 < 2 ^ 51 + 1" using fit2 unfolding dl_def by linarith
  have i63: "int (2 ^ 63) = 2 ^ 63" by simp
  have "int (unat (system_start c)) < int (2 ^ 63)" using s63 by (simp only: of_nat_less_iff)
  then have "int (unat (system_start c)) < 2 ^ 63" unfolding i63 .
  then have sum: "int (unat (system_start c)) + t2 < 2 ^ 64" using t2hi by simp
  have "unat (system_start c + word_of_int t2) = unat (system_start c) + nat t2"
    using t20 sum by (rule unat_start_plus)
  then have "unat (system_start c) \<le> unat (system_start c + word_of_int t2)" by simp
  then have nowrap: "system_start c \<le> system_start c + word_of_int t2"
    by (simp only: word_le_nat_alt)
  have "system_start c + word_of_int t1 \<le> system_start c + word_of_int t2"
    by (rule clock_get_mono[OF r le1 le g1 g2 nowrap])
  then show "\<exists>d1 d2. clock_get_system_time_for_pts c pts1 = Some d1 \<and>
               clock_get_system_time_for_pts c pts2 = Some d2 \<and> d1 \<le> d2"
    using g1 g2 by blast
next
  fix K
  assume h: "0 < K \<and> K < 2 ^ 53 \<and> 1000 * playback_rate c = real_of_int K \<and>
            sint pts2 - sint (media_start_pts c) < 2 ^ 53 \<and>
            int (unat (system_start c)) + (sint pts2 - sint (media_start_pts c)) div K < 2 ^ 64"
  define m where "m = sint (media_start_pts c)"
  define s where "s = system_start c"
  define k1 where "k1 = (sint pts1 - m) div K"
  define k2 where "k2 = (sint pts2 - m) div K"
  have K: "0 < K" "K < 2 ^ 53" "1000 * playback_rate c = real_of_int K" using h by simp_all
  have fit2: "sint pts2 - sint (media_start_pts c) < 2 ^ 53" using h by simp
  have fit1: "sint pts1 - sint (media_start_pts c) < 2 ^ 53" using fit2 lt by linarith
  have le2: "sint (media_start_pts c) \<le> sint pts2" using le1 lt by linarith
  have g1: "clock_get_system_time_for_pts c pts1 = Some (s + word_of_int k1)"
    unfolding s_def k1_def m_def by (rule clock_get_integral_rate[OF K le1 fit1])
  have g2: "clock_get_system_time_for_pts c pts2 = Some (s + word_of_int k2)"
    unfolding s_def k2_def m_def by (rule clock_get_integral_rate[OF K le2 fit2])
  have "0 \<le> sint pts1 - m" unfolding m_def using le1 by simp
  then have f1: "0 \<le> k1" unfolding k1_def using K(1) by (simp add: pos_imp_zdiv_nonneg_iff)
  have "sint pts1 - m \<le> sint pts2 - m" using lt by simp
  then have f12: "k1 \<le> k2" unfolding k1_def k2_def using K(1) by (rule zdiv_mono1)
  have f2i: "int (unat s) + k2 < 2 ^ 64" using h unfolding s_def k2_def m_def by simp
  have f1i: "int (unat s) + k1 < 2 ^ 64" using f2i f12 by linarith
  have u1: "unat (s + word_of_int k1) = unat s + nat k1"
    using f1 f1i by (rule unat_start_plus)
  have u2: "unat (s + word_of_int k2) = unat s + nat k2"
    using f1 f12 f2i by (intro unat_start_plus) linarith+
  have le: "s + word_of_int k1 \<le> s + word_of_int k2"
  proof -
    have "nat k1 \<le> nat k2" using f12 by linarith
    then show ?thesis by (simp only: word_le_nat_alt u1 u2 nat_add_left_cancel_le)
  qed
  have strict: "s + word_of_int k1 < s + word_of_int k2" if gap: "K \<le> sint pts2 - sint pts1"
  proof -
    have "sint pts1 - m + K * 1 \<le> sint pts2 - m" using gap by simp
    then have "(sint pts1 - m + K * 1) div K \<le> (sint pts2 - m) div K"
      using K(1) by (rule zdiv_mono1)
    moreover have "(sint pts1 - m + K * 1) div K = (sint pts1 - m) div K + 1"
      using K(1) by (simp only: div_mult_self2)
    ultimately have "k1 < k2" unfolding k1_def k2_def by linarith
    then have "nat k1 < nat k2" using f1 by linarith
    then show ?thesis by (simp only: word_less_nat_alt u1 u2 nat_add_left_cancel_less)
  qed
  show "\<exists>d1 d2. clock_get_system_time_for_pts c pts1 = Some d1 \<and>
               clock_get_system_time_for_pts c pts2 = Some d2 \<and> d1 \<le> d2 \<and>
               (K \<le> sint pts2 - sint pts1 \<longrightarrow> d1 < d2)"
    using g1 g2 le strict by simp
qed


text \<open>The timestamps 33000 and 66000 at rate 1 in the epoch that starts at 5000 ms.\<close>

theorem C2_deadline_monotone_witness:
  "clock_get_system_time_for_pts
       \<lparr>system_start = 5000, media_start_pts = 0, last_pts = 0, last_system = 5000,
        playback_rate = 1\<rparr> 33000 = Some 5033 \<and>
   clock_get_system_time_for_pts
       \<lparr>system_start = 5000, media_start_pts = 0, last_pts = 0, last_system = 5000,
        playback_rate = 1\<rparr> 66000 = Some 5066 \<and>
   (5033 :: 64 word) \<le> 5066 \<and>
   (\<exists>d1 d2. clock_get_system_time_for_pts
       \<lparr>system_start = 5000, media_start_pts = 0, last_pts = 0, last_system = 5000,
        playback_rate = 1\<rparr> 33000 = Some d1 \<and>
     clock_get_system_time_for_pts
       \<lparr>system_start = 5000, media_start_pts = 0, last_pts = 0, last_system = 5000,
        playback_rate = 1\<rparr> 66000 = Some d2 \<and> d1 < d2)"
proof -
  let ?c = "\<lparr>system_start = 5000, media_start_pts = 0, last_pts = 0, last_system = 5000,
        playback_rate = 1\<rparr>"
  have h1: "0 < playback_rate ?c" by simp
  have h2: "sint (media_start_pts ?c) \<le> sint (33000 :: 64 word)" by simp
  have h3: "sint (33000 :: 64 word) < sint (66000 :: 64 word)" by simp
  have e1: "clock_get_system_time_for_pts ?c 33000 = Some 5033"
    by (simp add: clock_get_system_time_for_pts_def int64_sub_def round_double_def binade_def
        round_half_even_def double_to_uint64_def trunc_real_def Let_def
        bitlen_33000 bitlen_1000 bitlen_33)
  have e2: "clock_get_system_time_for_pts ?c 66000 = Some 5066"
    by (simp add: clock_get_system_time_for_pts_def int64_sub_def round_double_def binade_def
        round_half_even_def double_to_uint64_def trunc_real_def Let_def
        bitlen_66000 bitlen_1000 bitlen_66)
  have e3: "system_start ?c \<le> 5066" by simp
  have hK: "0 < (1000::int) \<and> (1000::int) < 2 ^ 53 \<and> 1000 * playback_rate ?c = real_of_int 1000 \<and>
            sint (66000 :: 64 word) - sint (media_start_pts ?c) < 2 ^ 53 \<and>
            int (unat (system_start ?c)) + (sint (66000 :: 64 word) - sint (media_start_pts ?c)) div 1000 < 2 ^ 64"
    by simp
  have gap: "(1000::int) \<le> sint (66000 :: 64 word) - sint (33000 :: 64 word)" by simp
  note T = C2_deadline_monotone[OF h1 h2 h3]
  have a: "(5033 :: 64 word) \<le> 5066"
    using T[THEN conjunct1, rule_format, of 5033 5066] e1 e2 e3 by blast
  have hR: "1 / 1000 \<le> playback_rate ?c \<and> playback_rate ?c \<le> 1000 \<and>
          sint (66000 :: 64 word) - sint (media_start_pts ?c) < 2 ^ 51 \<and> unat (system_start ?c) < 2 ^ 63"
    by simp
  have m: "\<exists>d1 d2. clock_get_system_time_for_pts ?c 33000 = Some d1 \<and>
     clock_get_system_time_for_pts ?c 66000 = Some d2 \<and> d1 \<le> d2"
    using T[THEN conjunct2, THEN conjunct1, rule_format, OF hR] .
  have b: "\<exists>d1 d2. clock_get_system_time_for_pts ?c 33000 = Some d1 \<and>
     clock_get_system_time_for_pts ?c 66000 = Some d2 \<and> d1 < d2"
    using T[THEN conjunct2, THEN conjunct2, rule_format, OF hK] gap by blast
  show ?thesis using e1 e2 a b m by blast
qed

section \<open>Properties of the ring buffer\<close>

lemma unat_eqD: "unat (w::32 word) = n \<Longrightarrow> w = word_of_nat n"
  by auto

lemma pos_cases:
  assumes "unat (w::32 word) < RING_BUFFER_SIZE"
  shows "w = 0 \<or> w = 1 \<or> w = 2 \<or> w = 3"
proof -
  have "unat w = 0 \<or> unat w = 1 \<or> unat w = 2 \<or> unat w = 3"
    using assms by (simp add: RING_BUFFER_SIZE_def) arith
  then show ?thesis
  proof (elim disjE)
    assume "unat w = 0" then show ?thesis using unat_eqD[of w 0] by simp
  next
    assume "unat w = 1" then show ?thesis using unat_eqD[of w 1] by simp
  next
    assume "unat w = 2" then show ?thesis using unat_eqD[of w 2] by simp
  next
    assume "unat w = 3" then show ?thesis using unat_eqD[of w 3] by simp
  qed
qed

lemma next_pos_mod:
  assumes "unat w < RING_BUFFER_SIZE"
  shows "unat (next_pos w) = (unat w + 1) mod RING_BUFFER_SIZE"
  using pos_cases[OF assms]
  by (auto simp: next_pos_def RING_BUFFER_SIZE_def)

lemma next_pos_lt: "unat w < RING_BUFFER_SIZE \<Longrightarrow> unat (next_pos w) < RING_BUFFER_SIZE"
  by (simp add: next_pos_mod)

text \<open>What one successful enqueue does.\<close>

lemma enqueue_True:
  assumes "enqueue rb x = Some (True, rb')"
  shows "unat (write_pos rb) < length (slots rb)"
    and "slot_state (slots rb ! unat (write_pos rb)) = SLOT_EMPTY"
    and "unat (write_pos rb) < RING_BUFFER_SIZE \<Longrightarrow> slots rb' = (slots rb)[unat (write_pos rb) :=
            \<lparr>slot_frame = fst x, slot_timestamp = snd x, slot_state = SLOT_READY\<rparr>]"
    and "write_pos rb' = next_pos (write_pos rb)"
    and "read_pos rb' = read_pos rb"
  using assms
  by (auto simp: enqueue_def lockfree_ringbuffer_write_begin_def
      lockfree_ringbuffer_write_commit_def Let_def split: if_splits)

lemma enqueue_all_length: "enqueue_all rb xs = Some rb' \<Longrightarrow> length (slots rb') = length (slots rb)"
proof (induction xs arbitrary: rb)
  case Nil then show ?case by simp
next
  case (Cons x xs)
  then obtain rb1 where e: "enqueue rb x = Some (True, rb1)" and r: "enqueue_all rb1 xs = Some rb'"
    by (auto split: option.splits bool.splits prod.splits)
  have "length (slots rb1) = length (slots rb)" using e
    by (auto simp: enqueue_def lockfree_ringbuffer_write_begin_def
      lockfree_ringbuffer_write_commit_def Let_def split: if_splits)
  then show ?case using Cons.IH[OF r] by simp
qed


lemma enqueue_all_Cons:
  assumes "enqueue_all rb (x # xs) = Some rb'"
  obtains rb1 where "enqueue rb x = Some (True, rb1)" "enqueue_all rb1 xs = Some rb'"
  using assms by (auto split: option.splits bool.splits prod.splits)

lemma enqueue_all_keeps_nonempty:
  assumes "enqueue_all rb xs = Some rb'"
    and "length (slots rb) = RING_BUFFER_SIZE"
    and "slot_state (slots rb ! i) \<noteq> SLOT_EMPTY"
  shows "slots rb' ! i = slots rb ! i"
  using assms
proof (induction xs arbitrary: rb)
  case Nil then show ?case by simp
next
  case (Cons x xs)
  from Cons.prems(1) obtain rb1 where e: "enqueue rb x = Some (True, rb1)"
    and r: "enqueue_all rb1 xs = Some rb'" by (rule enqueue_all_Cons)
  let ?p = "unat (write_pos rb)"
  have p: "?p < RING_BUFFER_SIZE" using enqueue_True(1)[OF e] Cons.prems(2) by simp
  have ne: "?p \<noteq> i" using enqueue_True(2)[OF e] Cons.prems(3) by auto
  have s1: "slots rb1 ! i = slots rb ! i"
    using enqueue_True(3)[OF e p] ne by simp
  have l1: "length (slots rb1) = RING_BUFFER_SIZE"
    using enqueue_True(3)[OF e p] Cons.prems(2) by simp
  show ?case using Cons.IH[OF r l1] s1 Cons.prems(3) by simp
qed

lemma enqueue_all_write_pos:
  assumes "enqueue_all rb xs = Some rb'"
    and "length (slots rb) = RING_BUFFER_SIZE"
    and "unat (write_pos rb) < RING_BUFFER_SIZE"
  shows "unat (write_pos rb') = (unat (write_pos rb) + length xs) mod RING_BUFFER_SIZE"
  using assms
proof (induction xs arbitrary: rb)
  case Nil then show ?case by simp
next
  case (Cons x xs)
  from Cons.prems(1) obtain rb1 where e: "enqueue rb x = Some (True, rb1)"
    and r: "enqueue_all rb1 xs = Some rb'" by (rule enqueue_all_Cons)
  have l1: "length (slots rb1) = RING_BUFFER_SIZE"
    using enqueue_True(3)[OF e Cons.prems(3)] Cons.prems(2) by simp
  have w1: "unat (write_pos rb1) = (unat (write_pos rb) + 1) mod RING_BUFFER_SIZE"
    using enqueue_True(4)[OF e] next_pos_mod[OF Cons.prems(3)] by simp
  then have w1lt: "unat (write_pos rb1) < RING_BUFFER_SIZE" by (simp add: RING_BUFFER_SIZE_def)
  have "unat (write_pos rb') = (unat (write_pos rb1) + length xs) mod RING_BUFFER_SIZE"
    by (rule Cons.IH[OF r l1 w1lt])
  then show ?case unfolding w1 by (simp add: mod_add_left_eq)
qed

lemma enqueue_all_read_pos:
  "enqueue_all rb xs = Some rb' \<Longrightarrow> read_pos rb' = read_pos rb"
proof (induction xs arbitrary: rb)
  case Nil then show ?case by simp
next
  case (Cons x xs)
  from Cons.prems(1) obtain rb1 where e: "enqueue rb x = Some (True, rb1)"
    and r: "enqueue_all rb1 xs = Some rb'" by (rule enqueue_all_Cons)
  show ?case using Cons.IH[OF r] enqueue_True(5)[OF e] by simp
qed

lemma first_enqueued_stays:
  assumes "enqueue_all rb (x # xs) = Some rb'"
    and "length (slots rb) = RING_BUFFER_SIZE"
  shows "unat (write_pos rb) < RING_BUFFER_SIZE"
    and "slots rb' ! unat (write_pos rb) =
           \<lparr>slot_frame = fst x, slot_timestamp = snd x, slot_state = SLOT_READY\<rparr>"
proof -
  from assms(1) obtain rb1 where e: "enqueue rb x = Some (True, rb1)"
    and r: "enqueue_all rb1 xs = Some rb'" by (rule enqueue_all_Cons)
  show p: "unat (write_pos rb) < RING_BUFFER_SIZE" using enqueue_True(1)[OF e] assms(2) by simp
  have s1: "slots rb1 = (slots rb)[unat (write_pos rb) :=
            \<lparr>slot_frame = fst x, slot_timestamp = snd x, slot_state = SLOT_READY\<rparr>]"
    by (rule enqueue_True(3)[OF e p])
  have l1: "length (slots rb1) = RING_BUFFER_SIZE" using s1 assms(2) by simp
  have at: "slots rb1 ! unat (write_pos rb) =
            \<lparr>slot_frame = fst x, slot_timestamp = snd x, slot_state = SLOT_READY\<rparr>"
    using s1 p assms(2) by simp
  have "slots rb' ! unat (write_pos rb) = slots rb1 ! unat (write_pos rb)"
    by (rule enqueue_all_keeps_nonempty[OF r l1]) (simp add: at)
  then show "slots rb' ! unat (write_pos rb) =
           \<lparr>slot_frame = fst x, slot_timestamp = snd x, slot_state = SLOT_READY\<rparr>"
    using at by simp
qed


lemma dequeue_n_agree:
  assumes "enqueue_all rb xs = Some rb'"
    and "length (slots rb) = RING_BUFFER_SIZE"
    and "length (slots rbx) = RING_BUFFER_SIZE"
    and "read_pos rbx = write_pos rb"
    and "unat (write_pos rb) < RING_BUFFER_SIZE"
    and "\<And>i. i < RING_BUFFER_SIZE \<Longrightarrow> slot_state (slots rb ! i) = SLOT_EMPTY \<Longrightarrow>
            slots rbx ! i = slots rb' ! i"
  shows "\<exists>rbx'. dequeue_n release rbx (length xs) = Some (xs, rbx')"
  using assms
proof (induction xs arbitrary: rb rbx)
  case Nil then show ?case by simp
next
  case (Cons x xs)
  from Cons.prems(1) obtain rb1 where e: "enqueue rb x = Some (True, rb1)"
    and r: "enqueue_all rb1 xs = Some rb'" by (rule enqueue_all_Cons)
  let ?p = "unat (write_pos rb)"
  note p = Cons.prems(5)
  have emp: "slot_state (slots rb ! ?p) = SLOT_EMPTY" by (rule enqueue_True(2)[OF e])
  have s1: "slots rb1 = (slots rb)[?p :=
            \<lparr>slot_frame = fst x, slot_timestamp = snd x, slot_state = SLOT_READY\<rparr>]"
    by (rule enqueue_True(3)[OF e p])
  have l1: "length (slots rb1) = RING_BUFFER_SIZE" using s1 Cons.prems(2) by simp
  have w1: "write_pos rb1 = next_pos (write_pos rb)" by (rule enqueue_True(4)[OF e])
  have rdy: "slots rb' ! ?p =
           \<lparr>slot_frame = fst x, slot_timestamp = snd x, slot_state = SLOT_READY\<rparr>"
    by (rule first_enqueued_stays(2)[OF Cons.prems(1,2)])
  have xat: "slots rbx ! ?p =
           \<lparr>slot_frame = fst x, slot_timestamp = snd x, slot_state = SLOT_READY\<rparr>"
    using Cons.prems(6)[OF p emp] rdy by simp
  define rby where "rby = rbx\<lparr>slots := (slots rbx)[?p :=
                        \<lparr>slot_frame = None, slot_timestamp = 0, slot_state = SLOT_READING\<rparr>],
                  read_pos := next_pos (read_pos rbx),
                  frames_read := frames_read rbx + 1\<rparr>"
  define rbz where "rbz = (if release then lockfree_ringbuffer_read_complete rby (read_pos rbx) else rby)"
  have d: "dequeue release rbx = Some (Some x, rbz)"
    using xat p Cons.prems(3,4)
    by (simp add: dequeue_def lockfree_ringbuffer_read_begin_def Let_def rby_def rbz_def)
  have lz: "length (slots rbz) = RING_BUFFER_SIZE"
    using Cons.prems(3) by (simp add: rbz_def rby_def lockfree_ringbuffer_read_complete_def)
  have rz: "read_pos rbz = write_pos rb1"
    using w1 Cons.prems(4) by (simp add: rbz_def rby_def lockfree_ringbuffer_read_complete_def)
  have p1: "unat (write_pos rb1) < RING_BUFFER_SIZE" using w1 next_pos_lt[OF p] by simp
  have agree: "slots rbz ! i = slots rb' ! i"
    if "i < RING_BUFFER_SIZE" "slot_state (slots rb1 ! i) = SLOT_EMPTY" for i
  proof -
    have ne: "i \<noteq> ?p" using that s1 p Cons.prems(2) by auto
    then have "slot_state (slots rb ! i) = SLOT_EMPTY" using that(2) s1 by simp
    then have "slots rbx ! i = slots rb' ! i" using Cons.prems(6) that(1) by simp
    moreover have "slots rbz ! i = slots rbx ! i"
      using ne Cons.prems(4) by (simp add: rbz_def rby_def lockfree_ringbuffer_read_complete_def)
    ultimately show ?thesis by simp
  qed
  obtain rbx' where "dequeue_n release rbz (length xs) = Some (xs, rbx')"
    using Cons.IH[OF r l1 lz rz p1 agree] by blast
  then show ?case using d by simp
qed

lemma enqueue_all_succeeds:
  assumes "length (slots rb) = RING_BUFFER_SIZE"
    and "unat (write_pos rb) < RING_BUFFER_SIZE"
    and "\<And>k. k < length xs \<Longrightarrow>
           slot_state (slots rb ! ((unat (write_pos rb) + k) mod RING_BUFFER_SIZE)) = SLOT_EMPTY"
    and "length xs \<le> RING_BUFFER_SIZE"
  shows "\<exists>rb'. enqueue_all rb xs = Some rb'"
  using assms
proof (induction xs arbitrary: rb)
  case Nil then show ?case by simp
next
  case (Cons x xs)
  let ?p = "unat (write_pos rb)"
  have emp: "slot_state (slots rb ! ?p) = SLOT_EMPTY"
    using Cons.prems(3)[of 0] Cons.prems(2) by simp
  define rb1 where "rb1 = lockfree_ringbuffer_write_commit
     (rb\<lparr>slots := (slots rb)[?p := (slots rb ! ?p)\<lparr>slot_state := SLOT_WRITING\<rparr>],
         write_pos := next_pos (write_pos rb)\<rparr>) (write_pos rb) (fst x) (snd x)"
  have e: "enqueue rb x = Some (True, rb1)"
    using emp Cons.prems(1,2)
    by (simp add: enqueue_def lockfree_ringbuffer_write_begin_def Let_def rb1_def)
  have s1: "slots rb1 = (slots rb)[?p :=
            \<lparr>slot_frame = fst x, slot_timestamp = snd x, slot_state = SLOT_READY\<rparr>]"
    by (rule enqueue_True(3)[OF e Cons.prems(2)])
  have l1: "length (slots rb1) = RING_BUFFER_SIZE" using s1 Cons.prems(1) by simp
  have w1: "unat (write_pos rb1) = (?p + 1) mod RING_BUFFER_SIZE"
    using enqueue_True(4)[OF e] next_pos_mod[OF Cons.prems(2)] by simp
  then have p1: "unat (write_pos rb1) < RING_BUFFER_SIZE" by (simp add: RING_BUFFER_SIZE_def)
  have emp1: "slot_state (slots rb1 ! ((unat (write_pos rb1) + k) mod RING_BUFFER_SIZE)) = SLOT_EMPTY"
    if "k < length xs" for k
  proof -
    have k: "Suc k < RING_BUFFER_SIZE" using that Cons.prems(4) by simp
    have idx: "(unat (write_pos rb1) + k) mod RING_BUFFER_SIZE = (?p + Suc k) mod RING_BUFFER_SIZE"
      unfolding w1 by (simp add: mod_add_left_eq)
    have ne: "(?p + Suc k) mod RING_BUFFER_SIZE \<noteq> ?p"
      using k Cons.prems(2) unfolding RING_BUFFER_SIZE_def by presburger
    have "slot_state (slots rb ! ((?p + Suc k) mod RING_BUFFER_SIZE)) = SLOT_EMPTY"
      using Cons.prems(3)[of "Suc k"] that by simp
    then show ?thesis unfolding idx s1 using ne by simp
  qed
  obtain rb' where "enqueue_all rb1 xs = Some rb'"
    using Cons.IH[OF l1 p1 emp1] Cons.prems(4) by auto
  then show ?case using e by auto
qed


text \<open>
  C3: when \<^verbatim>\<open>RING_BUFFER_SIZE\<close> enqueues in a row have succeeded, with no dequeue in
  between, the next \<^verbatim>\<open>write_begin\<close> returns \<^verbatim>\<open>false\<close>, adds one to
  \<open>write_failures\<close> and changes nothing else: slots and cursors are as before.
\<close>

theorem C3_full_buffer_rejects:
  assumes len: "length (slots rb) = RING_BUFFER_SIZE"
    and n: "length xs = RING_BUFFER_SIZE"
    and enq: "enqueue_all rb xs = Some rb'"
  shows "lockfree_ringbuffer_write_begin rb' =
           Some (None, rb'\<lparr>write_failures := write_failures rb' + 1\<rparr>)"
proof -
  from n obtain x xs' where xs: "xs = x # xs'" by (cases xs) (auto simp: RING_BUFFER_SIZE_def)
  have p: "unat (write_pos rb) < RING_BUFFER_SIZE"
    and rdy: "slots rb' ! unat (write_pos rb) =
           \<lparr>slot_frame = fst x, slot_timestamp = snd x, slot_state = SLOT_READY\<rparr>"
    using first_enqueued_stays[OF enq[unfolded xs] len] by simp_all
  have "unat (write_pos rb') = (unat (write_pos rb) + length xs) mod RING_BUFFER_SIZE"
    by (rule enqueue_all_write_pos[OF enq len p])
  then have wp: "unat (write_pos rb') = unat (write_pos rb)" using n p by simp
  have l': "length (slots rb') = RING_BUFFER_SIZE" using enqueue_all_length[OF enq] len by simp
  show ?thesis using wp rdy p l'
    by (simp add: lockfree_ringbuffer_write_begin_def Let_def)
qed

text \<open>Four frames into the freshly initialised buffer; the fifth \<^verbatim>\<open>write_begin\<close>.\<close>

theorem C3_full_buffer_rejects_witness:
  "lockfree_ringbuffer_write_begin
     \<lparr>write_pos = 0, read_pos = 0,
      slots = [\<lparr>slot_frame = Some 1, slot_timestamp = 10, slot_state = SLOT_READY\<rparr>,
               \<lparr>slot_frame = Some 2, slot_timestamp = 20, slot_state = SLOT_READY\<rparr>,
               \<lparr>slot_frame = Some 3, slot_timestamp = 30, slot_state = SLOT_READY\<rparr>,
               \<lparr>slot_frame = Some 4, slot_timestamp = 40, slot_state = SLOT_READY\<rparr>],
      frames_written = 4, frames_read = 0, write_failures = 0, read_failures = 0\<rparr> =
   Some (None,
     \<lparr>write_pos = 0, read_pos = 0,
      slots = [\<lparr>slot_frame = Some 1, slot_timestamp = 10, slot_state = SLOT_READY\<rparr>,
               \<lparr>slot_frame = Some 2, slot_timestamp = 20, slot_state = SLOT_READY\<rparr>,
               \<lparr>slot_frame = Some 3, slot_timestamp = 30, slot_state = SLOT_READY\<rparr>,
               \<lparr>slot_frame = Some 4, slot_timestamp = 40, slot_state = SLOT_READY\<rparr>],
      frames_written = 4, frames_read = 0, write_failures = 1, read_failures = 0\<rparr>)"
proof -
  let ?xs = "[(Some 1, 10), (Some 2, 20), (Some 3, 30), (Some 4, 40)] :: (AVFrame_ptr \<times> 64 word) list"
  let ?rb' = "\<lparr>write_pos = 0, read_pos = 0,
      slots = [\<lparr>slot_frame = Some 1, slot_timestamp = 10, slot_state = SLOT_READY\<rparr>,
               \<lparr>slot_frame = Some 2, slot_timestamp = 20, slot_state = SLOT_READY\<rparr>,
               \<lparr>slot_frame = Some 3, slot_timestamp = 30, slot_state = SLOT_READY\<rparr>,
               \<lparr>slot_frame = Some 4, slot_timestamp = 40, slot_state = SLOT_READY\<rparr>],
      frames_written = 4, frames_read = 0, write_failures = 0, read_failures = 0\<rparr>"
  have h1: "length (slots lockfree_ringbuffer_init) = RING_BUFFER_SIZE"
    by (simp add: lockfree_ringbuffer_init_def)
  have h2: "length ?xs = RING_BUFFER_SIZE" by (simp add: RING_BUFFER_SIZE_def)
  have h3: "enqueue_all lockfree_ringbuffer_init ?xs = Some ?rb'"
    by code_simp
  show ?thesis using C3_full_buffer_rejects[OF h1 h2 h3] by simp
qed


text \<open>
  First in, first out, from aligned cursors: from a buffer whose slots are all empty
  and whose cursors coincide (the state after \<^verbatim>\<open>lockfree_ringbuffer_init\<close>, or after
  every claimed slot has been committed and every frame consumed and released),
  enqueueing at most \<^verbatim>\<open>RING_BUFFER_SIZE\<close> frames succeeds, and as many
  dequeues then return exactly these frames with their timestamps, in the order of
  the enqueues, whether or not the consumer releases each slot before the next
  dequeue. The timestamps need not even be distinct.
\<close>

theorem fifo_from_aligned_empty:
  assumes len: "length (slots rb) = RING_BUFFER_SIZE"
    and wp: "unat (write_pos rb) < RING_BUFFER_SIZE"
    and aligned: "read_pos rb = write_pos rb"
    and empty: "\<forall>s \<in> set (slots rb). slot_state s = SLOT_EMPTY"
    and n: "length xs \<le> RING_BUFFER_SIZE"
  shows "\<exists>rb' rb''. enqueue_all rb xs = Some rb' \<and>
            dequeue_n release rb' (length xs) = Some (xs, rb'')"
proof -
  have "\<And>k. slot_state (slots rb ! ((unat (write_pos rb) + k) mod RING_BUFFER_SIZE)) = SLOT_EMPTY"
    using empty len by (simp add: RING_BUFFER_SIZE_def)
  then obtain rb' where e: "enqueue_all rb xs = Some rb'"
    using enqueue_all_succeeds[OF len wp _ n] by blast
  have l': "length (slots rb') = RING_BUFFER_SIZE" using enqueue_all_length[OF e] len by simp
  have r': "read_pos rb' = write_pos rb" using enqueue_all_read_pos[OF e] aligned by simp
  obtain rb'' where "dequeue_n release rb' (length xs) = Some (xs, rb'')"
    using dequeue_n_agree[OF e len l' r' wp] by blast
  then show ?thesis using e by blast
qed


text \<open>Three frames through the freshly initialised buffer.\<close>

theorem fifo_from_aligned_empty_witness:
  "\<exists>rb' rb''.
     enqueue_all lockfree_ringbuffer_init [(Some 1, 10), (Some 2, 20), (Some 3, 30)] = Some rb' \<and>
     dequeue_n False rb' 3 = Some ([(Some 1, 10), (Some 2, 20), (Some 3, 30)], rb'')"
proof -
  let ?xs = "[(Some 1, 10), (Some 2, 20), (Some 3, 30)] :: (AVFrame_ptr \<times> 64 word) list"
  have h1: "length (slots lockfree_ringbuffer_init) = RING_BUFFER_SIZE"
    by (simp add: lockfree_ringbuffer_init_def)
  have h2: "unat (write_pos lockfree_ringbuffer_init) < RING_BUFFER_SIZE"
    by (simp add: lockfree_ringbuffer_init_def RING_BUFFER_SIZE_def)
  have h3: "read_pos lockfree_ringbuffer_init = write_pos lockfree_ringbuffer_init"
    by (simp add: lockfree_ringbuffer_init_def)
  have h4: "\<forall>s \<in> set (slots lockfree_ringbuffer_init). slot_state s = SLOT_EMPTY"
    by (simp add: lockfree_ringbuffer_init_def)
  have h5: "length ?xs \<le> RING_BUFFER_SIZE" by (simp add: RING_BUFFER_SIZE_def)
  have hl: "length ?xs = 3" by simp
  show ?thesis using fifo_from_aligned_empty[OF h1 h2 h3 h4 h5, of False] by (simp only: hl)
qed


text \<open>
  C4 fails in the code after an aborted write. \<^verbatim>\<open>lockfree_ringbuffer_write_begin\<close>
  advances \<^verbatim>\<open>write_pos\<close> when it claims a slot, and
  \<^verbatim>\<open>lockfree_ringbuffer_write_abort\<close> only sets the slot back to empty: after one
  claim and abort on the fresh buffer every slot is empty again, but \<^verbatim>\<open>write_pos\<close> is
  1 and \<^verbatim>\<open>read_pos\<close> is 0. Four frames enqueued into this empty buffer, with
  increasing timestamps, are dequeued in the order 4, 1, 2, 3; and after a single
  enqueue the dequeue finds nothing, the frame being in slot 1 while the consumer
  looks at slot 0.
\<close>

theorem C4_aborted_write_breaks_fifo:
  "claim_and_abort lockfree_ringbuffer_init = Some (lockfree_ringbuffer_init\<lparr>write_pos := 1\<rparr>) \<and>
   lockfree_ringbuffer_available_slots (lockfree_ringbuffer_init\<lparr>write_pos := 1\<rparr>) = RING_BUFFER_SIZE \<and>
   Option.bind
     (enqueue_all (lockfree_ringbuffer_init\<lparr>write_pos := 1\<rparr>)
        [(Some 1, 10), (Some 2, 20), (Some 3, 30), (Some 4, 40)])
     (\<lambda>rb. map_option fst (dequeue_n False rb 4))
     = Some [(Some 4, 40), (Some 1, 10), (Some 2, 20), (Some 3, 30)] \<and>
   Option.bind
     (enqueue_all (lockfree_ringbuffer_init\<lparr>write_pos := 1\<rparr>) [(Some 1, 10)])
     (\<lambda>rb. map_option fst (dequeue False rb))
     = Some None"
proof (intro conjI)
  show "claim_and_abort lockfree_ringbuffer_init = Some (lockfree_ringbuffer_init\<lparr>write_pos := 1\<rparr>)"
    by code_simp
  show "lockfree_ringbuffer_available_slots (lockfree_ringbuffer_init\<lparr>write_pos := 1\<rparr>) = RING_BUFFER_SIZE"
    by code_simp
  show "Option.bind
     (enqueue_all (lockfree_ringbuffer_init\<lparr>write_pos := 1\<rparr>)
        [(Some 1, 10), (Some 2, 20), (Some 3, 30), (Some 4, 40)])
     (\<lambda>rb. map_option fst (dequeue_n False rb 4))
     = Some [(Some 4, 40), (Some 1, 10), (Some 2, 20), (Some 3, 30)]"
    by code_simp
  show "Option.bind
     (enqueue_all (lockfree_ringbuffer_init\<lparr>write_pos := 1\<rparr>) [(Some 1, 10)])
     (\<lambda>rb. map_option fst (dequeue False rb))
     = Some None"
    by code_simp
qed

section \<open>Properties of the frame cache\<close>

lemma find_lru_loop_range:
  "find_lru_loop es i oldest lru = lru \<or>
   (int i \<le> find_lru_loop es i oldest lru \<and> find_lru_loop es i oldest lru < int (i + length es))"
proof (induction es arbitrary: i oldest lru)
  case Nil then show ?case by simp
next
  case (Cons e es)
  show ?case
    using Cons.IH[of "i + 1" "last_access_time e" "int i"] Cons.IH[of "i + 1" oldest lru]
    by auto
qed

lemma find_lru_entry_range:
  "find_lru_entry c = - 1 \<or> (0 \<le> find_lru_entry c \<and> nat (find_lru_entry c) < length (entries c))"
  using find_lru_loop_range[of "entries c" 0 UINT64_MAX "- 1"]
  by (auto simp: find_lru_entry_def)

text \<open>With no empty entry, the loop is a search for the least access time.\<close>

lemma find_lru_loop_full:
  assumes "\<forall>e \<in> set es. cf_state e \<noteq> CACHE_EMPTY"
  shows "(find_lru_loop es i oldest lru = lru \<and>
          (\<forall>e \<in> set es. cf_state e = CACHE_READY \<and> ref_count e = 0 \<longrightarrow>
                 \<not> last_access_time e < oldest)) \<or>
         (\<exists>k < length es. find_lru_loop es i oldest lru = int (i + k) \<and>
             cf_state (es ! k) = CACHE_READY \<and> ref_count (es ! k) = 0 \<and>
             last_access_time (es ! k) < oldest \<and>
             (\<forall>j < length es. cf_state (es ! j) = CACHE_READY \<and> ref_count (es ! j) = 0 \<longrightarrow>
                  last_access_time (es ! k) \<le> last_access_time (es ! j)))"
  using assms
proof (induction es arbitrary: i oldest lru)
  case Nil then show ?case by simp
next
  case (Cons e es)
  have full: "\<forall>e \<in> set es. cf_state e \<noteq> CACHE_EMPTY" and ne: "cf_state e \<noteq> CACHE_EMPTY"
    using Cons.prems by simp_all
  show ?case
  proof (cases "cf_state e = CACHE_READY \<and> ref_count e = 0 \<and> last_access_time e < oldest")
    case True
    have step: "find_lru_loop (e # es) i oldest lru = find_lru_loop es (i + 1) (last_access_time e) (int i)"
      using True ne by simp
    from Cons.IH[OF full, of "i + 1" "last_access_time e" "int i"]
    show ?thesis
    proof (elim disjE conjE exE)
      assume r: "find_lru_loop es (i + 1) (last_access_time e) (int i) = int i"
        and none: "\<forall>e' \<in> set es. cf_state e' = CACHE_READY \<and> ref_count e' = 0 \<longrightarrow>
                 \<not> last_access_time e' < last_access_time e"
      have "\<forall>j < length (e # es). cf_state ((e # es) ! j) = CACHE_READY \<and> ref_count ((e # es) ! j) = 0 \<longrightarrow>
                  last_access_time ((e # es) ! 0) \<le> last_access_time ((e # es) ! j)"
      proof (intro allI impI)
        fix j assume j: "j < length (e # es)"
          and c: "cf_state ((e # es) ! j) = CACHE_READY \<and> ref_count ((e # es) ! j) = 0"
        show "last_access_time ((e # es) ! 0) \<le> last_access_time ((e # es) ! j)"
        proof (cases j)
          case 0 then show ?thesis by simp
        next
          case (Suc j')
          then have "es ! j' \<in> set es" using j by simp
          then show ?thesis using none c Suc by (auto simp: not_less)
        qed
      qed
      then have "0 < length (e # es) \<and> find_lru_loop (e # es) i oldest lru = int (i + 0) \<and>
             cf_state ((e # es) ! 0) = CACHE_READY \<and> ref_count ((e # es) ! 0) = 0 \<and>
             last_access_time ((e # es) ! 0) < oldest \<and>
             (\<forall>j < length (e # es). cf_state ((e # es) ! j) = CACHE_READY \<and> ref_count ((e # es) ! j) = 0 \<longrightarrow>
                  last_access_time ((e # es) ! 0) \<le> last_access_time ((e # es) ! j))"
        using step r True by simp
      then show ?thesis by blast
    next
      fix k assume k: "k < length es"
        and r: "find_lru_loop es (i + 1) (last_access_time e) (int i) = int (i + 1 + k)"
        and ck: "cf_state (es ! k) = CACHE_READY" "ref_count (es ! k) = 0"
        and lt: "last_access_time (es ! k) < last_access_time e"
        and mn: "\<forall>j < length es. cf_state (es ! j) = CACHE_READY \<and> ref_count (es ! j) = 0 \<longrightarrow>
                  last_access_time (es ! k) \<le> last_access_time (es ! j)"
      have "\<forall>j < length (e # es). cf_state ((e # es) ! j) = CACHE_READY \<and> ref_count ((e # es) ! j) = 0 \<longrightarrow>
                  last_access_time ((e # es) ! Suc k) \<le> last_access_time ((e # es) ! j)"
      proof (intro allI impI)
        fix j assume j: "j < length (e # es)"
          and c: "cf_state ((e # es) ! j) = CACHE_READY \<and> ref_count ((e # es) ! j) = 0"
        show "last_access_time ((e # es) ! Suc k) \<le> last_access_time ((e # es) ! j)"
        proof (cases j)
          case 0 then show ?thesis using lt by simp
        next
          case (Suc j')
          then show ?thesis using mn j c by simp
        qed
      qed
      moreover have "last_access_time (es ! k) < oldest" using lt True by (meson less_trans)
      ultimately have "Suc k < length (e # es) \<and> find_lru_loop (e # es) i oldest lru = int (i + Suc k) \<and>
             cf_state ((e # es) ! Suc k) = CACHE_READY \<and> ref_count ((e # es) ! Suc k) = 0 \<and>
             last_access_time ((e # es) ! Suc k) < oldest \<and>
             (\<forall>j < length (e # es). cf_state ((e # es) ! j) = CACHE_READY \<and> ref_count ((e # es) ! j) = 0 \<longrightarrow>
                  last_access_time ((e # es) ! Suc k) \<le> last_access_time ((e # es) ! j))"
        using step r k ck by simp
      then show ?thesis by blast
    qed
  next
    case False
    have step: "find_lru_loop (e # es) i oldest lru = find_lru_loop es (i + 1) oldest lru"
      using False ne by auto
    from Cons.IH[OF full, of "i + 1" oldest lru]
    show ?thesis
    proof (elim disjE conjE exE)
      assume r: "find_lru_loop es (i + 1) oldest lru = lru"
        and none: "\<forall>e' \<in> set es. cf_state e' = CACHE_READY \<and> ref_count e' = 0 \<longrightarrow>
                 \<not> last_access_time e' < oldest"
      show ?thesis using step r none False by auto
    next
      fix k assume k: "k < length es"
        and r: "find_lru_loop es (i + 1) oldest lru = int (i + 1 + k)"
        and ck: "cf_state (es ! k) = CACHE_READY" "ref_count (es ! k) = 0"
        and lt: "last_access_time (es ! k) < oldest"
        and mn: "\<forall>j < length es. cf_state (es ! j) = CACHE_READY \<and> ref_count (es ! j) = 0 \<longrightarrow>
                  last_access_time (es ! k) \<le> last_access_time (es ! j)"
      have "\<forall>j < length (e # es). cf_state ((e # es) ! j) = CACHE_READY \<and> ref_count ((e # es) ! j) = 0 \<longrightarrow>
                  last_access_time ((e # es) ! Suc k) \<le> last_access_time ((e # es) ! j)"
      proof (intro allI impI)
        fix j assume j: "j < length (e # es)"
          and c: "cf_state ((e # es) ! j) = CACHE_READY \<and> ref_count ((e # es) ! j) = 0"
        show "last_access_time ((e # es) ! Suc k) \<le> last_access_time ((e # es) ! j)"
        proof (cases j)
          case 0 then show ?thesis using lt c False by (auto simp: not_less)
        next
          case (Suc j')
          then show ?thesis using mn j c by simp
        qed
      qed
      then have "Suc k < length (e # es) \<and> find_lru_loop (e # es) i oldest lru = int (i + Suc k) \<and>
             cf_state ((e # es) ! Suc k) = CACHE_READY \<and> ref_count ((e # es) ! Suc k) = 0 \<and>
             last_access_time ((e # es) ! Suc k) < oldest \<and>
             (\<forall>j < length (e # es). cf_state ((e # es) ! j) = CACHE_READY \<and> ref_count ((e # es) ! j) = 0 \<longrightarrow>
                  last_access_time ((e # es) ! Suc k) \<le> last_access_time ((e # es) ! j))"
        using step r k ck lt by simp
      then show ?thesis by blast
    qed
  qed
qed

lemma find_lru_entry_full:
  assumes "\<forall>e \<in> set (entries c). cf_state e \<noteq> CACHE_EMPTY"
  shows "(find_lru_entry c = - 1 \<and>
          (\<forall>e \<in> set (entries c). cf_state e = CACHE_READY \<and> ref_count e = 0 \<longrightarrow>
                 last_access_time e = UINT64_MAX)) \<or>
         (\<exists>k < length (entries c). find_lru_entry c = int k \<and>
             cf_state (entries c ! k) = CACHE_READY \<and> ref_count (entries c ! k) = 0 \<and>
             (\<forall>j < length (entries c).
                  cf_state (entries c ! j) = CACHE_READY \<and> ref_count (entries c ! j) = 0 \<longrightarrow>
                  last_access_time (entries c ! k) \<le> last_access_time (entries c ! j)))"
proof -
  have mx: "\<not> x < UINT64_MAX \<Longrightarrow> x = UINT64_MAX" for x :: "64 word"
    unfolding UINT64_MAX_def using word_order.not_eq_extremum[of x] by blast
  from find_lru_loop_full[OF assms, of 0 UINT64_MAX "- 1"]
  show ?thesis
  proof (elim disjE conjE exE)
    assume "find_lru_loop (entries c) 0 UINT64_MAX (- 1) = - 1"
      and "\<forall>e\<in>set (entries c). cf_state e = CACHE_READY \<and> ref_count e = 0 \<longrightarrow>
            \<not> last_access_time e < UINT64_MAX"
    then show ?thesis using mx by (auto simp: find_lru_entry_def)
  next
    fix k assume "k < length (entries c)"
      "find_lru_loop (entries c) 0 UINT64_MAX (- 1) = int (0 + k)"
      "cf_state (entries c ! k) = CACHE_READY" "ref_count (entries c ! k) = 0"
      "\<forall>j<length (entries c). cf_state (entries c ! j) = CACHE_READY \<and> ref_count (entries c ! j) = 0 \<longrightarrow>
           last_access_time (entries c ! k) \<le> last_access_time (entries c ! j)"
    then show ?thesis by (auto simp: find_lru_entry_def)
  qed
qed

lemma put_no_slot:
  "find_lru_entry c < 0 \<Longrightarrow> frame_cache_put h c now ck bk fr p d ls w ht = (False, h, c)"
  by (simp add: frame_cache_put_def split: option.splits)

lemma put_clone_fails:
  assumes "enabled c" "find_lru_entry c = int i" "cf_frame (entries c ! i) = Some a"
    and "\<not> (ck \<and> live (av_frame_free h a) src)"
  shows "frame_cache_put h c now ck bk (Some src) p d ls w ht =
           (False, av_frame_free h a,
            c\<lparr>evictions := evictions c + 1,
              entries := (entries c)[i := (entries c ! i)
                 \<lparr>bgra_data := None, cf_frame := None, cf_state := CACHE_EMPTY\<rparr>]\<rparr>)"
  using assms
  by (auto simp: frame_cache_put_def evict_slot_def av_frame_clone_def Let_def)

lemma put_clone_ok:
  assumes "enabled c" "find_lru_entry c = int i" "cf_frame (entries c ! i) = Some a"
    and "ck" "live (av_frame_free h a) src"
  shows "frame_cache_put h c now ck bk (Some src) p d ls w ht =
           (True, av_frame_free h a @ [av_frame_free h a ! src],
            c\<lparr>evictions := evictions c + 1,
              entries := (entries c)[i :=
                 (store_converted (cache_converted_frames c) bk d ls w ht
                    ((entries c ! i)\<lparr>cf_state := CACHE_LOADING, bgra_data := None,
                                     cf_frame := Some (length h)\<rparr>))
                 \<lparr>cf_pts := p, last_access_time := now, access_count := 0,
                  ref_count := 0, cf_state := CACHE_READY\<rparr>],
              insertions := insertions c + 1\<rparr>)"
  using assms
  by (auto simp: frame_cache_put_def evict_slot_def av_frame_clone_def av_frame_free_def Let_def)

lemma put_clone_ok_free:
  assumes "enabled c" "find_lru_entry c = int i" "cf_frame (entries c ! i) = None"
    and "ck" "live h src"
  shows "frame_cache_put h c now ck bk (Some src) p d ls w ht =
           (True, h @ [h ! src],
            c\<lparr>entries := (entries c)[i :=
                 (store_converted (cache_converted_frames c) bk d ls w ht
                    ((entries c ! i)\<lparr>cf_state := CACHE_LOADING, bgra_data := None,
                                     cf_frame := Some (length h)\<rparr>))
                 \<lparr>cf_pts := p, last_access_time := now, access_count := 0,
                  ref_count := 0, cf_state := CACHE_READY\<rparr>],
              insertions := insertions c + 1\<rparr>)"
  using assms
  by (auto simp: frame_cache_put_def evict_slot_def av_frame_clone_def Let_def)

lemma put_clone_fails_free:
  assumes "enabled c" "find_lru_entry c = int i" "cf_frame (entries c ! i) = None"
    and "\<not> (ck \<and> live h src)"
  shows "frame_cache_put h c now ck bk (Some src) p d ls w ht =
           (False, h,
            c\<lparr>entries := (entries c)[i := (entries c ! i)
                 \<lparr>bgra_data := None, cf_frame := None, cf_state := CACHE_EMPTY\<rparr>]\<rparr>)"
  using assms
  by (auto simp: frame_cache_put_def evict_slot_def av_frame_clone_def Let_def)

lemma store_converted_fields [simp]:
  "cf_state (store_converted cv bk d ls w ht e) = cf_state e"
  "cf_frame (store_converted cv bk d ls w ht e) = cf_frame e"
  "cf_pts (store_converted cv bk d ls w ht e) = cf_pts e"
  "ref_count (store_converted cv bk d ls w ht e) = ref_count e"
  "last_access_time (store_converted cv bk d ls w ht e) = last_access_time e"
  by (auto simp: store_converted_def Let_def split: option.splits)

lemma cache_invD:
  assumes "cache_inv c"
  shows "length (entries c) = FRAME_CACHE_SIZE" "enabled c"
    and "\<And>j. j < FRAME_CACHE_SIZE \<Longrightarrow> cf_state (entries c ! j) = CACHE_READY \<Longrightarrow>
           cf_frame (entries c ! j) \<noteq> None \<and> last_access_time (entries c ! j) < UINT64_MAX"
  using assms by (auto simp: cache_inv_def list_all_length)

text \<open>The three ways a put on a cache without an empty entry can go.\<close>

lemma put_full_cases:
  assumes inv: "cache_inv c"
    and full: "\<forall>e \<in> set (entries c). cf_state e \<noteq> CACHE_EMPTY"
  shows "(find_lru_entry c = - 1 \<and>
          (\<forall>e \<in> set (entries c). cf_state e = CACHE_READY \<longrightarrow> ref_count e \<noteq> 0) \<and>
          frame_cache_put h c now ck bk (Some src) p d ls w ht = (False, h, c)) \<or>
         (\<exists>i a. i < FRAME_CACHE_SIZE \<and> find_lru_entry c = int i \<and>
            cf_state (entries c ! i) = CACHE_READY \<and> ref_count (entries c ! i) = 0 \<and>
            (\<forall>j < FRAME_CACHE_SIZE.
                cf_state (entries c ! j) = CACHE_READY \<and> ref_count (entries c ! j) = 0 \<longrightarrow>
                last_access_time (entries c ! i) \<le> last_access_time (entries c ! j)) \<and>
            cf_frame (entries c ! i) = Some a \<and>
            (\<exists>ok h' e'. frame_cache_put h c now ck bk (Some src) p d ls w ht =
                (ok, h', c\<lparr>evictions := evictions c + 1, entries := (entries c)[i := e'],
                          insertions := insertions c + (if ok then 1 else 0)\<rparr>) \<and>
                take (length h) h' = av_frame_free h a))"
proof -
  note len = cache_invD(1)[OF inv] and en = cache_invD(2)[OF inv]
  from find_lru_entry_full[OF full] show ?thesis
  proof (elim disjE conjE exE)
    assume m: "find_lru_entry c = - 1"
      and mx: "\<forall>e\<in>set (entries c). cf_state e = CACHE_READY \<and> ref_count e = 0 \<longrightarrow>
                 last_access_time e = UINT64_MAX"
    have "\<forall>e \<in> set (entries c). cf_state e = CACHE_READY \<longrightarrow> ref_count e \<noteq> 0"
    proof (intro ballI impI notI)
      fix e assume e: "e \<in> set (entries c)" "cf_state e = CACHE_READY" "ref_count e = 0"
      then obtain j where j: "j < length (entries c)" "entries c ! j = e"
        by (auto simp: in_set_conv_nth)
      have "last_access_time e < UINT64_MAX" using cache_invD(3)[OF inv, of j] j e len by simp
      then show False using mx e by auto
    qed
    moreover have "frame_cache_put h c now ck bk (Some src) p d ls w ht = (False, h, c)"
      using m by (simp add: put_no_slot)
    ultimately show ?thesis using m by blast
  next
    fix k assume k: "k < length (entries c)" and f: "find_lru_entry c = int k"
      and st: "cf_state (entries c ! k) = CACHE_READY" and rc: "ref_count (entries c ! k) = 0"
      and mn: "\<forall>j<length (entries c). cf_state (entries c ! j) = CACHE_READY \<and> ref_count (entries c ! j) = 0 \<longrightarrow>
           last_access_time (entries c ! k) \<le> last_access_time (entries c ! j)"
    have kk: "k < FRAME_CACHE_SIZE" using k len by simp
    obtain a where a: "cf_frame (entries c ! k) = Some a"
      using cache_invD(3)[OF inv kk st] by auto
    have "\<exists>ok h' e'. frame_cache_put h c now ck bk (Some src) p d ls w ht =
                (ok, h', c\<lparr>evictions := evictions c + 1, entries := (entries c)[k := e'],
                          insertions := insertions c + (if ok then 1 else 0)\<rparr>) \<and>
                take (length h) h' = av_frame_free h a"
    proof (cases "ck \<and> live (av_frame_free h a) src")
      case True
      let ?e = "(store_converted (cache_converted_frames c) bk d ls w ht
                    ((entries c ! k)\<lparr>cf_state := CACHE_LOADING, bgra_data := None,
                                     cf_frame := Some (length h)\<rparr>))
                 \<lparr>cf_pts := p, last_access_time := now, access_count := 0,
                  ref_count := 0, cf_state := CACHE_READY\<rparr>"
      have r: "frame_cache_put h c now ck bk (Some src) p d ls w ht =
           (True, av_frame_free h a @ [av_frame_free h a ! src],
            c\<lparr>evictions := evictions c + 1, entries := (entries c)[k := ?e],
              insertions := insertions c + 1\<rparr>)"
        using put_clone_ok[OF en f a, of ck h src now bk p d ls w ht] True by simp
      have t: "take (length h) (av_frame_free h a @ [av_frame_free h a ! src]) = av_frame_free h a"
        by (simp add: av_frame_free_def)
      show ?thesis
        by (rule exI[of _ True], rule exI[of _ "av_frame_free h a @ [av_frame_free h a ! src]"],
            rule exI[of _ ?e]) (simp only: r t if_True simp_thms)
    next
      case False
      let ?e = "(entries c ! k)\<lparr>bgra_data := None, cf_frame := None, cf_state := CACHE_EMPTY\<rparr>"
      have r: "frame_cache_put h c now ck bk (Some src) p d ls w ht =
           (False, av_frame_free h a,
            c\<lparr>evictions := evictions c + 1, entries := (entries c)[k := ?e]\<rparr>)"
        using put_clone_fails[OF en f a False, of now bk p d ls w ht] by simp
      have z: "c\<lparr>evictions := evictions c + 1, entries := (entries c)[k := ?e]\<rparr> =
               c\<lparr>evictions := evictions c + 1, entries := (entries c)[k := ?e],
                 insertions := insertions c + (if False then 1 else 0)\<rparr>"
        by simp
      have t: "take (length h) (av_frame_free h a) = av_frame_free h a"
        by (simp add: av_frame_free_def)
      show ?thesis
        by (rule exI[of _ False], rule exI[of _ "av_frame_free h a"], rule exI[of _ ?e])
           (simp only: r t z[symmetric] simp_thms)
    qed
    then have "\<exists>i a. i < FRAME_CACHE_SIZE \<and> find_lru_entry c = int i \<and>
            cf_state (entries c ! i) = CACHE_READY \<and> ref_count (entries c ! i) = 0 \<and>
            (\<forall>j < FRAME_CACHE_SIZE.
                cf_state (entries c ! j) = CACHE_READY \<and> ref_count (entries c ! j) = 0 \<longrightarrow>
                last_access_time (entries c ! i) \<le> last_access_time (entries c ! j)) \<and>
            cf_frame (entries c ! i) = Some a \<and>
            (\<exists>ok h' e'. frame_cache_put h c now ck bk (Some src) p d ls w ht =
                (ok, h', c\<lparr>evictions := evictions c + 1, entries := (entries c)[i := e'],
                          insertions := insertions c + (if ok then 1 else 0)\<rparr>) \<and>
                take (length h) h' = av_frame_free h a)"
      using kk f st rc mn[unfolded len] a
      by (intro exI[of _ k] exI[of _ a] conjI)
    then show ?thesis by (rule disjI2)
  qed
qed

text \<open>
  C5: a put into a cache with no empty entry. When some ready entry is unpinned
  (reference count 0), the victim is a ready, unpinned entry whose last access is the
  oldest among the ready unpinned entries; its frame is freed, the eviction counter
  goes up by one and no other entry changes. An entry with a non-zero reference count
  is never touched. When every ready entry is pinned, the put returns \<^verbatim>\<open>false\<close> and
  the heap and the cache stay as they were.
\<close>

theorem C5_lru_eviction:
  assumes inv: "cache_inv c"
    and full: "\<forall>e \<in> set (entries c). cf_state e \<noteq> CACHE_EMPTY"
    and res: "frame_cache_put h c now ck bk (Some src) p d ls w ht = (ok, h', c')"
  shows "((\<exists>e \<in> set (entries c). cf_state e = CACHE_READY \<and> ref_count e = 0) \<longrightarrow>
            (\<exists>i a. i < FRAME_CACHE_SIZE \<and> find_lru_entry c = int i \<and>
               cf_state (entries c ! i) = CACHE_READY \<and> ref_count (entries c ! i) = 0 \<and>
               (\<forall>j < FRAME_CACHE_SIZE.
                   cf_state (entries c ! j) = CACHE_READY \<and> ref_count (entries c ! j) = 0 \<longrightarrow>
                   last_access_time (entries c ! i) \<le> last_access_time (entries c ! j)) \<and>
               cf_frame (entries c ! i) = Some a \<and>
               take (length h) h' = av_frame_free h a \<and>
               evictions c' = evictions c + 1 \<and>
               (\<forall>j < FRAME_CACHE_SIZE. j \<noteq> i \<longrightarrow> entries c' ! j = entries c ! j))) \<and>
         (\<forall>j < FRAME_CACHE_SIZE. ref_count (entries c ! j) \<noteq> 0 \<longrightarrow> entries c' ! j = entries c ! j) \<and>
         ((\<forall>e \<in> set (entries c). cf_state e = CACHE_READY \<longrightarrow> ref_count e \<noteq> 0) \<longrightarrow>
            \<not> ok \<and> h' = h \<and> c' = c \<and> find_lru_entry c = - 1)"
proof -
  note len = cache_invD(1)[OF inv]
  from put_full_cases[OF inv full, of h now ck bk src p d ls w ht] show ?thesis
  proof (elim disjE conjE exE)
    assume m: "find_lru_entry c = - 1"
      and pinned: "\<forall>e \<in> set (entries c). cf_state e = CACHE_READY \<longrightarrow> ref_count e \<noteq> 0"
      and r: "frame_cache_put h c now ck bk (Some src) p d ls w ht = (False, h, c)"
    have eq: "ok = False" "h' = h" "c' = c" using r res by simp_all
    show ?thesis using pinned m unfolding eq by blast
  next
    fix i a ok1 h1 e1
    assume i: "i < FRAME_CACHE_SIZE" and f: "find_lru_entry c = int i"
      and st: "cf_state (entries c ! i) = CACHE_READY" and rc: "ref_count (entries c ! i) = 0"
      and mn: "\<forall>j < FRAME_CACHE_SIZE.
                cf_state (entries c ! j) = CACHE_READY \<and> ref_count (entries c ! j) = 0 \<longrightarrow>
                last_access_time (entries c ! i) \<le> last_access_time (entries c ! j)"
      and a: "cf_frame (entries c ! i) = Some a"
      and r: "frame_cache_put h c now ck bk (Some src) p d ls w ht =
                (ok1, h1, c\<lparr>evictions := evictions c + 1, entries := (entries c)[i := e1],
                          insertions := insertions c + (if ok1 then 1 else 0)\<rparr>)"
      and t: "take (length h) h1 = av_frame_free h a"
    have eq: "h' = h1"
      "c' = c\<lparr>evictions := evictions c + 1, entries := (entries c)[i := e1],
                          insertions := insertions c + (if ok1 then 1 else 0)\<rparr>"
      using r res by simp_all
    have ev: "evictions c' = evictions c + 1" by (simp add: eq)
    have others: "\<forall>j < FRAME_CACHE_SIZE. j \<noteq> i \<longrightarrow> entries c' ! j = entries c ! j"
      by (simp add: eq)
    have unpinned: "\<forall>j < FRAME_CACHE_SIZE. ref_count (entries c ! j) \<noteq> 0 \<longrightarrow> entries c' ! j = entries c ! j"
      using others rc by auto
    have ex: "entries c ! i \<in> set (entries c)" using i len by simp
    have notall: "\<not> (\<forall>e \<in> set (entries c). cf_state e = CACHE_READY \<longrightarrow> ref_count e \<noteq> 0)"
      using ex st rc by blast
    have victim: "\<exists>i a. i < FRAME_CACHE_SIZE \<and> find_lru_entry c = int i \<and>
               cf_state (entries c ! i) = CACHE_READY \<and> ref_count (entries c ! i) = 0 \<and>
               (\<forall>j < FRAME_CACHE_SIZE.
                   cf_state (entries c ! j) = CACHE_READY \<and> ref_count (entries c ! j) = 0 \<longrightarrow>
                   last_access_time (entries c ! i) \<le> last_access_time (entries c ! j)) \<and>
               cf_frame (entries c ! i) = Some a \<and>
               take (length h) h' = av_frame_free h a \<and>
               evictions c' = evictions c + 1 \<and>
               (\<forall>j < FRAME_CACHE_SIZE. j \<noteq> i \<longrightarrow> entries c' ! j = entries c ! j)"
      using i f st rc mn a t[folded eq(1)] ev others
      by (intro exI[of _ i] exI[of _ a] conjI)
    show ?thesis using victim unpinned notall by blast
  qed
qed

text \<open>
  A cache of thirty ready entries, all pinned but those at 7 and 12, last accessed in
  the order of their indices: a put evicts one unpinned entry.
\<close>

theorem C5_lru_eviction_witness:
  "\<exists>i a. i < FRAME_CACHE_SIZE \<and>
     find_lru_entry
       ((frame_cache_init False)\<lparr>entries := map (\<lambda>k.
           \<lparr>cf_frame = Some k, cf_pts = word_of_nat k, ref_count = (if k = 7 \<or> k = 12 then 0 else 1),
            cf_state = CACHE_READY, bgra_data = None, bgra_linesize = [0, 0, 0, 0],
            cf_width = 0, cf_height = 0, last_access_time = 1000 + word_of_nat k,
            access_count = 0\<rparr>) [0..<30]\<rparr>) = int i \<and>
     ref_count (map (\<lambda>k.
           \<lparr>cf_frame = Some k, cf_pts = word_of_nat k, ref_count = (if k = 7 \<or> k = 12 then 0 else 1),
            cf_state = CACHE_READY, bgra_data = None, bgra_linesize = [0, 0, 0, 0],
            cf_width = 0, cf_height = 0, last_access_time = 1000 + word_of_nat k,
            access_count = 0\<rparr>) [0..<30] ! i) = 0 \<and>
     cf_frame (map (\<lambda>k.
           \<lparr>cf_frame = Some k, cf_pts = word_of_nat k, ref_count = (if k = 7 \<or> k = 12 then 0 else 1),
            cf_state = CACHE_READY, bgra_data = None, bgra_linesize = [0, 0, 0, 0],
            cf_width = 0, cf_height = 0, last_access_time = 1000 + word_of_nat k,
            access_count = 0\<rparr>) [0..<30] ! i) = Some a \<and>
     evictions (snd (snd (frame_cache_put (map Some [100..<131])
       ((frame_cache_init False)\<lparr>entries := map (\<lambda>k.
           \<lparr>cf_frame = Some k, cf_pts = word_of_nat k, ref_count = (if k = 7 \<or> k = 12 then 0 else 1),
            cf_state = CACHE_READY, bgra_data = None, bgra_linesize = [0, 0, 0, 0],
            cf_width = 0, cf_height = 0, last_access_time = 1000 + word_of_nat k,
            access_count = 0\<rparr>) [0..<30]\<rparr>)
       5000 True True (Some 30) 77 None None 0 0))) = 1"
proof -
  let ?es = "map (\<lambda>k.
           \<lparr>cf_frame = Some k, cf_pts = word_of_nat k, ref_count = (if k = 7 \<or> k = 12 then 0 else 1),
            cf_state = CACHE_READY, bgra_data = None, bgra_linesize = [0, 0, 0, 0],
            cf_width = 0, cf_height = 0, last_access_time = 1000 + word_of_nat k,
            access_count = 0\<rparr>) [0..<30]"
  let ?c = "(frame_cache_init False)\<lparr>entries := ?es\<rparr>"
  let ?h = "map Some [100..<131]"
  let ?r = "frame_cache_put ?h ?c 5000 True True (Some 30) 77 None None 0 0"
  have h1: "cache_inv ?c" by code_simp
  have h2: "\<forall>e \<in> set (entries ?c). cf_state e \<noteq> CACHE_EMPTY" by code_simp
  have h3: "?r = (fst ?r, fst (snd ?r), snd (snd ?r))" by simp
  have h4: "\<exists>e \<in> set (entries ?c). cf_state e = CACHE_READY \<and> ref_count e = 0" by code_simp
  have ev: "evictions ?c = 0" by (simp add: frame_cache_init_def)
  have en: "entries ?c = ?es" by simp
  from C5_lru_eviction[OF h1 h2 h3, THEN conjunct1, rule_format, OF h4]
  show ?thesis unfolding ev en by force
qed

lemma get_loop_None_iff:
  "get_loop es i p = None \<longleftrightarrow> (\<forall>e \<in> set es. \<not> (cf_state e = CACHE_READY \<and> cf_pts e = p))"
  by (induction es arbitrary: i) auto

lemma get_loop_Some:
  "get_loop es i p = Some r \<Longrightarrow>
     \<exists>k < length es. r = i + k \<and> cf_state (es ! k) = CACHE_READY \<and> cf_pts (es ! k) = p \<and>
        (\<forall>j < k. \<not> (cf_state (es ! j) = CACHE_READY \<and> cf_pts (es ! j) = p))"
proof (induction es arbitrary: i)
  case Nil then show ?case by simp
next
  case (Cons e es)
  show ?case
  proof (cases "cf_state e = CACHE_READY \<and> cf_pts e = p")
    case True
    then have "r = i" using Cons.prems by simp
    then have "0 < length (e # es) \<and> r = i + 0 \<and> cf_state ((e # es) ! 0) = CACHE_READY \<and>
        cf_pts ((e # es) ! 0) = p \<and>
        (\<forall>j < 0. \<not> (cf_state ((e # es) ! j) = CACHE_READY \<and> cf_pts ((e # es) ! j) = p))"
      using True by simp
    then show ?thesis by blast
  next
    case False
    then have "get_loop es (i + 1) p = Some r" using Cons.prems by auto
    from Cons.IH[OF this] obtain k where k: "k < length es" "r = i + 1 + k"
      "cf_state (es ! k) = CACHE_READY" "cf_pts (es ! k) = p"
      "\<forall>j < k. \<not> (cf_state (es ! j) = CACHE_READY \<and> cf_pts (es ! j) = p)" by blast
    have "\<forall>j < Suc k. \<not> (cf_state ((e # es) ! j) = CACHE_READY \<and> cf_pts ((e # es) ! j) = p)"
    proof (intro allI impI)
      fix j assume "j < Suc k"
      then show "\<not> (cf_state ((e # es) ! j) = CACHE_READY \<and> cf_pts ((e # es) ! j) = p)"
        using False k(5) by (cases j) auto
    qed
    then have "Suc k < length (e # es) \<and> r = i + Suc k \<and> cf_state ((e # es) ! Suc k) = CACHE_READY \<and>
        cf_pts ((e # es) ! Suc k) = p \<and>
        (\<forall>j < Suc k. \<not> (cf_state ((e # es) ! j) = CACHE_READY \<and> cf_pts ((e # es) ! j) = p))"
      using k by simp
    then show ?thesis by blast
  qed
qed

lemma get_miss:
  assumes "enabled c" "\<forall>e \<in> set (entries c). \<not> (cf_state e = CACHE_READY \<and> cf_pts e = p)"
  shows "frame_cache_get c now p = (None, c\<lparr>misses := misses c + 1\<rparr>)"
  using assms get_loop_None_iff[of "entries c" 0 p] by (simp add: frame_cache_get_def)

lemma get_hit:
  assumes en: "enabled c" and ex: "\<exists>e \<in> set (entries c). cf_state e = CACHE_READY \<and> cf_pts e = p"
  shows "\<exists>i < length (entries c).
           frame_cache_get c now p =
             (Some i, c\<lparr>entries := (entries c)[i := (entries c ! i)
                     \<lparr>last_access_time := now,
                      access_count := access_count (entries c ! i) + 1,
                      ref_count := ref_count (entries c ! i) + 1\<rparr>],
                 hits := hits c + 1\<rparr>) \<and>
           cf_state (entries c ! i) = CACHE_READY \<and> cf_pts (entries c ! i) = p \<and>
           (\<forall>j < i. \<not> (cf_state (entries c ! j) = CACHE_READY \<and> cf_pts (entries c ! j) = p))"
proof -
  have "get_loop (entries c) 0 p \<noteq> None" using ex get_loop_None_iff[of "entries c" 0 p] by blast
  then obtain r where r: "get_loop (entries c) 0 p = Some r" by auto
  from get_loop_Some[OF r] obtain k where k: "k < length (entries c)" "r = k"
      "cf_state (entries c ! k) = CACHE_READY" "cf_pts (entries c ! k) = p"
      "\<forall>j < k. \<not> (cf_state (entries c ! j) = CACHE_READY \<and> cf_pts (entries c ! j) = p)" by auto
  have "frame_cache_get c now p =
             (Some k, c\<lparr>entries := (entries c)[k := (entries c ! k)
                     \<lparr>last_access_time := now,
                      access_count := access_count (entries c ! k) + 1,
                      ref_count := ref_count (entries c ! k) + 1\<rparr>],
                 hits := hits c + 1\<rparr>)"
    using en r k(2) by (simp add: frame_cache_get_def)
  then show ?thesis using k by (intro exI[of _ k] conjI)
qed


text \<open>
  C10: a put whose victim is a ready entry and whose \<^verbatim>\<open>av_frame_clone\<close> fails
  returns \<^verbatim>\<open>false\<close>, yet it has freed the victim's frame, dropped its pixel buffer,
  counted an eviction and left the slot empty. When no other ready entry has the
  victim's timestamp, a get for that timestamp hit before the put and misses after it.
\<close>

theorem C10_failed_put_destroys_victim:
  assumes inv: "cache_inv c"
    and victim: "find_lru_entry c = int i"
    and occupied: "cf_state (entries c ! i) = CACHE_READY"
    and fail: "\<not> ck"
  shows "\<exists>a. cf_frame (entries c ! i) = Some a \<and>
           frame_cache_put h c now ck bk (Some src) p d ls w ht =
             (False, av_frame_free h a,
              c\<lparr>evictions := evictions c + 1,
                entries := (entries c)[i := (entries c ! i)
                   \<lparr>bgra_data := None, cf_frame := None, cf_state := CACHE_EMPTY\<rparr>]\<rparr>) \<and>
           ((\<forall>j < FRAME_CACHE_SIZE. j \<noteq> i \<longrightarrow>
                \<not> (cf_state (entries c ! j) = CACHE_READY \<and>
                   cf_pts (entries c ! j) = cf_pts (entries c ! i))) \<longrightarrow>
              fst (frame_cache_get c t (cf_pts (entries c ! i))) = Some i \<and>
              fst (frame_cache_get
                     (snd (snd (frame_cache_put h c now ck bk (Some src) p d ls w ht))) t
                     (cf_pts (entries c ! i))) = None)"
proof -
  note len = cache_invD(1)[OF inv] and en = cache_invD(2)[OF inv]
  have i: "i < FRAME_CACHE_SIZE"
    using find_lru_entry_range[of c] victim len by auto
  obtain a where a: "cf_frame (entries c ! i) = Some a"
    using cache_invD(3)[OF inv i occupied] by auto
  let ?c' = "c\<lparr>evictions := evictions c + 1,
                entries := (entries c)[i := (entries c ! i)
                   \<lparr>bgra_data := None, cf_frame := None, cf_state := CACHE_EMPTY\<rparr>]\<rparr>"
  let ?q = "cf_pts (entries c ! i)"
  have r: "frame_cache_put h c now ck bk (Some src) p d ls w ht = (False, av_frame_free h a, ?c')"
    using fail by (intro put_clone_fails[OF en victim a]) simp
  have gets: "fst (frame_cache_get c t ?q) = Some i \<and> fst (frame_cache_get ?c' t ?q) = None"
    if only: "\<forall>j < FRAME_CACHE_SIZE. j \<noteq> i \<longrightarrow>
                \<not> (cf_state (entries c ! j) = CACHE_READY \<and> cf_pts (entries c ! j) = ?q)"
  proof
    have "\<exists>e \<in> set (entries c). cf_state e = CACHE_READY \<and> cf_pts e = ?q"
      using occupied i len by (intro bexI[of _ "entries c ! i"]) simp_all
    from get_hit[OF en this, of t] obtain k where k: "k < length (entries c)"
      "fst (frame_cache_get c t ?q) = Some k"
      "cf_state (entries c ! k) = CACHE_READY" "cf_pts (entries c ! k) = ?q" by auto
    have "k = i" using only k len by auto
    then show "fst (frame_cache_get c t ?q) = Some i" using k(2) by simp
  next
    have "\<forall>e \<in> set (entries ?c'). \<not> (cf_state e = CACHE_READY \<and> cf_pts e = ?q)"
    proof
      fix e assume "e \<in> set (entries ?c')"
      then obtain j where j: "j < FRAME_CACHE_SIZE" "e = entries ?c' ! j"
        using len by (auto simp: in_set_conv_nth)
      show "\<not> (cf_state e = CACHE_READY \<and> cf_pts e = ?q)"
      proof (cases "j = i")
        case True then show ?thesis using j len by simp
      next
        case False then show ?thesis using j only by simp
      qed
    qed
    then show "fst (frame_cache_get ?c' t ?q) = None"
      using en get_miss[of ?c' ?q t] by simp
  qed
  show ?thesis using a r gets by (intro exI[of _ a]) simp
qed


text \<open>The cache of thirty ready entries again: the failed put loses the entry at 7.\<close>

theorem C10_failed_put_destroys_victim_witness:
  "fst (frame_cache_put (map Some [100..<131])
       ((frame_cache_init False)\<lparr>entries := map (\<lambda>k.
           \<lparr>cf_frame = Some k, cf_pts = word_of_nat k, ref_count = (if k = 7 \<or> k = 12 then 0 else 1),
            cf_state = CACHE_READY, bgra_data = None, bgra_linesize = [0, 0, 0, 0],
            cf_width = 0, cf_height = 0, last_access_time = 1000 + word_of_nat k,
            access_count = 0\<rparr>) [0..<30]\<rparr>)
       5000 False True (Some 30) 77 None None 0 0) = False \<and>
   fst (frame_cache_get
       ((frame_cache_init False)\<lparr>entries := map (\<lambda>k.
           \<lparr>cf_frame = Some k, cf_pts = word_of_nat k, ref_count = (if k = 7 \<or> k = 12 then 0 else 1),
            cf_state = CACHE_READY, bgra_data = None, bgra_linesize = [0, 0, 0, 0],
            cf_width = 0, cf_height = 0, last_access_time = 1000 + word_of_nat k,
            access_count = 0\<rparr>) [0..<30]\<rparr>) 6000 7) = Some 7 \<and>
   fst (frame_cache_get
     (snd (snd (frame_cache_put (map Some [100..<131])
       ((frame_cache_init False)\<lparr>entries := map (\<lambda>k.
           \<lparr>cf_frame = Some k, cf_pts = word_of_nat k, ref_count = (if k = 7 \<or> k = 12 then 0 else 1),
            cf_state = CACHE_READY, bgra_data = None, bgra_linesize = [0, 0, 0, 0],
            cf_width = 0, cf_height = 0, last_access_time = 1000 + word_of_nat k,
            access_count = 0\<rparr>) [0..<30]\<rparr>)
       5000 False True (Some 30) 77 None None 0 0))) 6000 7) = None"
proof -
  let ?es = "map (\<lambda>k.
           \<lparr>cf_frame = Some k, cf_pts = word_of_nat k, ref_count = (if k = 7 \<or> k = 12 then 0 else 1),
            cf_state = CACHE_READY, bgra_data = None, bgra_linesize = [0, 0, 0, 0],
            cf_width = 0, cf_height = 0, last_access_time = 1000 + word_of_nat k,
            access_count = 0\<rparr>) [0..<30]"
  let ?c = "(frame_cache_init False)\<lparr>entries := ?es\<rparr>"
  let ?h = "map Some [100..<131]"
  have h1: "cache_inv ?c" by code_simp
  have h2: "find_lru_entry ?c = int 7" by code_simp
  have h3: "cf_state (entries ?c ! 7) = CACHE_READY" by code_simp
  have h4: "\<not> False" by simp
  have q: "cf_pts (entries ?c ! 7) = 7" by code_simp
  have "list_all (\<lambda>j. j \<noteq> 7 \<longrightarrow>
                \<not> (cf_state (entries ?c ! j) = CACHE_READY \<and>
                   cf_pts (entries ?c ! j) = cf_pts (entries ?c ! 7))) [0..<30]"
    by code_simp
  then have only: "\<forall>j < FRAME_CACHE_SIZE. j \<noteq> 7 \<longrightarrow>
                \<not> (cf_state (entries ?c ! j) = CACHE_READY \<and>
                   cf_pts (entries ?c ! j) = cf_pts (entries ?c ! 7))"
    unfolding list_all_iff FRAME_CACHE_SIZE_def by simp
  from C10_failed_put_destroys_victim[OF h1 h2 h3 h4, of ?h 5000 True 30 77 None None 0 0 6000]
  obtain a where
    r: "frame_cache_put ?h ?c 5000 False True (Some 30) 77 None None 0 0 =
         (False, av_frame_free ?h a,
              ?c\<lparr>evictions := evictions ?c + 1,
                entries := (entries ?c)[7 := (entries ?c ! 7)
                   \<lparr>bgra_data := None, cf_frame := None, cf_state := CACHE_EMPTY\<rparr>]\<rparr>)"
    and g: "(\<forall>j < FRAME_CACHE_SIZE. j \<noteq> 7 \<longrightarrow>
                \<not> (cf_state (entries ?c ! j) = CACHE_READY \<and>
                   cf_pts (entries ?c ! j) = cf_pts (entries ?c ! 7))) \<longrightarrow>
              fst (frame_cache_get ?c 6000 (cf_pts (entries ?c ! 7))) = Some 7 \<and>
              fst (frame_cache_get
                     (snd (snd (frame_cache_put ?h ?c 5000 False True (Some 30) 77 None None 0 0))) 6000
                     (cf_pts (entries ?c ! 7))) = None"
    by blast
  have f: "fst (frame_cache_put ?h ?c 5000 False True (Some 30) 77 None None 0 0) = False"
    by (simp only: r fst_conv)
  from g only have g': "fst (frame_cache_get ?c 6000 (cf_pts (entries ?c ! 7))) = Some 7 \<and>
              fst (frame_cache_get
                     (snd (snd (frame_cache_put ?h ?c 5000 False True (Some 30) 77 None None 0 0))) 6000
                     (cf_pts (entries ?c ! 7))) = None"
    by (rule mp)
  show ?thesis using f g'[unfolded q] by (intro conjI) (simp_all only:)
qed

lemma put_success:
  assumes en: "enabled c"
    and res: "frame_cache_put h c now ck bk (Some src) p d ls w ht = (True, h', c')"
  shows "\<exists>i e'. i < length (entries c) \<and> find_lru_entry c = int i \<and>
           src < length h \<and> h ! src \<noteq> None \<and>
           length h' = length h + 1 \<and> h' ! length h = h ! src \<and> h' ! src = h ! src \<and>
           entries c' = (entries c)[i := e'] \<and>
           cf_state e' = CACHE_READY \<and> cf_pts e' = p \<and> cf_frame e' = Some (length h) \<and>
           ref_count e' = 0 \<and> last_access_time e' = now \<and>
           enabled c' \<and> hits c' = hits c \<and> misses c' = misses c"
proof -
  have "find_lru_entry c \<noteq> - 1"
    using res put_no_slot[of c h now ck bk "Some src" p d ls w ht] by auto
  then obtain i where i: "find_lru_entry c = int i" "i < length (entries c)"
    using find_lru_entry_range[of c] by (auto dest: zero_le_imp_eq_int)
  show ?thesis
  proof (cases "cf_frame (entries c ! i)")
    case None
    have ok: "ck \<and> live h src"
      using put_clone_fails_free[OF en i(1) None, of ck h src now bk p d ls w ht] res by auto
    let ?e = "(store_converted (cache_converted_frames c) bk d ls w ht
                    ((entries c ! i)\<lparr>cf_state := CACHE_LOADING, bgra_data := None,
                                     cf_frame := Some (length h)\<rparr>))
                 \<lparr>cf_pts := p, last_access_time := now, access_count := 0,
                  ref_count := 0, cf_state := CACHE_READY\<rparr>"
    have r: "h' = h @ [h ! src]"
      "c' = c\<lparr>entries := (entries c)[i := ?e], insertions := insertions c + 1\<rparr>"
      using put_clone_ok_free[OF en i(1) None, of ck h src now bk p d ls w ht] ok res by simp_all
    have s: "src < length h" "h ! src \<noteq> None" using ok by (simp_all add: live_def)
    show ?thesis
      using i s en
      by (intro exI[of _ i] exI[of _ ?e]) (simp add: r nth_append)
  next
    case (Some a)
    have ok: "ck \<and> live (av_frame_free h a) src"
      using put_clone_fails[OF en i(1) Some, of ck h src now bk p d ls w ht] res by auto
    let ?e = "(store_converted (cache_converted_frames c) bk d ls w ht
                    ((entries c ! i)\<lparr>cf_state := CACHE_LOADING, bgra_data := None,
                                     cf_frame := Some (length h)\<rparr>))
                 \<lparr>cf_pts := p, last_access_time := now, access_count := 0,
                  ref_count := 0, cf_state := CACHE_READY\<rparr>"
    have r: "h' = av_frame_free h a @ [av_frame_free h a ! src]"
      "c' = c\<lparr>evictions := evictions c + 1, entries := (entries c)[i := ?e],
              insertions := insertions c + 1\<rparr>"
      using put_clone_ok[OF en i(1) Some, of ck h src now bk p d ls w ht] ok res by simp_all
    have s: "src < length h" "h[a := None] ! src \<noteq> None"
      using ok by (simp_all add: live_def av_frame_free_def)
    then have ne: "src \<noteq> a" by auto
    then have same: "h[a := None] ! src = h ! src" by simp
    show ?thesis
      using i s en same
      by (intro exI[of _ i] exI[of _ ?e]) (simp add: r nth_append av_frame_free_def)
  qed
qed

text \<open>
  C6: on a cache in use, a get for a timestamp that some ready entry has returns the
  first such entry, leaves its frame as it is, adds one to the hit counter and to the
  entry's reference count; a get for a timestamp that no ready entry has returns
  \<^verbatim>\<open>NULL\<close> and adds one to the miss counter. A put that succeeds has stored, under its
  timestamp, a frame at a new address, different from the caller's, with the caller's
  picture, and the caller's frame is still live and unchanged; the next get for this
  timestamp hits, and it returns the entry just stored with its cloned frame when the
  timestamp was not in the cache before.
\<close>

theorem C6_get_after_put:
  assumes inv: "cache_inv c"
  shows "((\<exists>e \<in> set (entries c). cf_state e = CACHE_READY \<and> cf_pts e = p) \<longrightarrow>
            (\<exists>i < FRAME_CACHE_SIZE.
               frame_cache_get c now p =
                 (Some i, c\<lparr>entries := (entries c)[i := (entries c ! i)
                     \<lparr>last_access_time := now,
                      access_count := access_count (entries c ! i) + 1,
                      ref_count := ref_count (entries c ! i) + 1\<rparr>],
                   hits := hits c + 1\<rparr>) \<and>
               cf_state (entries c ! i) = CACHE_READY \<and> cf_pts (entries c ! i) = p)) \<and>
         ((\<forall>e \<in> set (entries c). \<not> (cf_state e = CACHE_READY \<and> cf_pts e = p)) \<longrightarrow>
            frame_cache_get c now p = (None, c\<lparr>misses := misses c + 1\<rparr>)) \<and>
         (frame_cache_put h c t ck bk (Some src) p d ls w ht = (True, h', c') \<longrightarrow>
            (\<exists>i < FRAME_CACHE_SIZE. find_lru_entry c = int i \<and>
               cf_state (entries c' ! i) = CACHE_READY \<and> cf_pts (entries c' ! i) = p \<and>
               cf_frame (entries c' ! i) = Some (length h) \<and> length h \<noteq> src \<and>
               live h' (length h) \<and> h' ! length h = h ! src \<and>
               live h' src \<and> h' ! src = h ! src \<and>
               (\<exists>j \<le> i. \<exists>c''. frame_cache_get c' now p = (Some j, c'') \<and>
                   cf_pts (entries c' ! j) = p \<and>
                   cf_frame (entries c'' ! j) = cf_frame (entries c' ! j) \<and>
                   hits c'' = hits c + 1 \<and>
                   ((\<forall>e \<in> set (entries c). \<not> (cf_state e = CACHE_READY \<and> cf_pts e = p)) \<longrightarrow>
                      j = i \<and> cf_frame (entries c'' ! j) = Some (length h)))))"
proof (intro conjI impI)
  note len = cache_invD(1)[OF inv] and en = cache_invD(2)[OF inv]
  {
    assume "\<exists>e \<in> set (entries c). cf_state e = CACHE_READY \<and> cf_pts e = p"
    from get_hit[OF en this, of now]
    show "\<exists>i < FRAME_CACHE_SIZE.
               frame_cache_get c now p =
                 (Some i, c\<lparr>entries := (entries c)[i := (entries c ! i)
                     \<lparr>last_access_time := now,
                      access_count := access_count (entries c ! i) + 1,
                      ref_count := ref_count (entries c ! i) + 1\<rparr>],
                   hits := hits c + 1\<rparr>) \<and>
               cf_state (entries c ! i) = CACHE_READY \<and> cf_pts (entries c ! i) = p"
      unfolding len by blast
  }
  {
    assume "\<forall>e \<in> set (entries c). \<not> (cf_state e = CACHE_READY \<and> cf_pts e = p)"
    then show "frame_cache_get c now p = (None, c\<lparr>misses := misses c + 1\<rparr>)"
      using en by (rule get_miss[rotated])
  }
  {
    assume res: "frame_cache_put h c t ck bk (Some src) p d ls w ht = (True, h', c')"
    from put_success[OF en res] obtain i e' where
      i: "i < length (entries c)" and f: "find_lru_entry c = int i"
      and s: "src < length h" "h ! src \<noteq> None"
      and hh: "length h' = length h + 1" "h' ! length h = h ! src" "h' ! src = h ! src"
      and es: "entries c' = (entries c)[i := e']"
      and e': "cf_state e' = CACHE_READY" "cf_pts e' = p" "cf_frame e' = Some (length h)"
      and en': "enabled c'" and hits: "hits c' = hits c"
      by blast
    have at: "entries c' ! i = e'" using es i by simp
    have len': "length (entries c') = length (entries c)" using es by simp
    have mem: "entries c' ! i \<in> set (entries c')" using i len' by (simp only: nth_mem)
    have ex: "\<exists>e \<in> set (entries c'). cf_state e = CACHE_READY \<and> cf_pts e = p"
      using e' at mem by (intro bexI[of _ "entries c' ! i"]) simp_all
    from get_hit[OF en' ex, of now] obtain j where
      j: "j < length (entries c')"
      and g: "frame_cache_get c' now p =
             (Some j, c'\<lparr>entries := (entries c')[j := (entries c' ! j)
                     \<lparr>last_access_time := now,
                      access_count := access_count (entries c' ! j) + 1,
                      ref_count := ref_count (entries c' ! j) + 1\<rparr>],
                 hits := hits c' + 1\<rparr>)"
      and jp: "cf_state (entries c' ! j) = CACHE_READY" "cf_pts (entries c' ! j) = p"
      and first: "\<forall>k < j. \<not> (cf_state (entries c' ! k) = CACHE_READY \<and> cf_pts (entries c' ! k) = p)"
      by blast
    let ?c'' = "c'\<lparr>entries := (entries c')[j := (entries c' ! j)
                     \<lparr>last_access_time := now,
                      access_count := access_count (entries c' ! j) + 1,
                      ref_count := ref_count (entries c' ! j) + 1\<rparr>],
                 hits := hits c' + 1\<rparr>"
    have ji: "j \<le> i"
    proof (rule ccontr)
      assume "\<not> j \<le> i"
      then have "i < j" by simp
      then show False using first e' at by auto
    qed
    have fr: "cf_frame (entries ?c'' ! j) = cf_frame (entries c' ! j)" using j by simp
    have new: "j = i \<and> cf_frame (entries ?c'' ! j) = Some (length h)"
      if absent: "\<forall>e \<in> set (entries c). \<not> (cf_state e = CACHE_READY \<and> cf_pts e = p)"
    proof -
      have "j = i"
      proof (rule ccontr)
        assume ne: "j \<noteq> i"
        then have "entries c' ! j = entries c ! j" using es by simp
        moreover have "entries c ! j \<in> set (entries c)" using j len' by simp
        ultimately show False using absent jp by auto
      qed
      then show ?thesis using fr at e' by simp
    qed
    have get: "\<exists>j \<le> i. \<exists>c''. frame_cache_get c' now p = (Some j, c'') \<and>
                   cf_pts (entries c' ! j) = p \<and>
                   cf_frame (entries c'' ! j) = cf_frame (entries c' ! j) \<and>
                   hits c'' = hits c + 1 \<and>
                   ((\<forall>e \<in> set (entries c). \<not> (cf_state e = CACHE_READY \<and> cf_pts e = p)) \<longrightarrow>
                      j = i \<and> cf_frame (entries c'' ! j) = Some (length h))"
    proof (intro exI[of _ j] exI[of _ ?c''] conjI impI)
      show "j \<le> i" by (rule ji)
      show "frame_cache_get c' now p = (Some j, ?c'')" by (rule g)
      show "cf_pts (entries c' ! j) = p" by (rule jp(2))
      show "cf_frame (entries ?c'' ! j) = cf_frame (entries c' ! j)" by (rule fr)
      show "hits ?c'' = hits c + 1" using hits by simp
    next
      assume absent: "\<forall>e \<in> set (entries c). \<not> (cf_state e = CACHE_READY \<and> cf_pts e = p)"
      show "j = i" using new[OF absent] by (rule conjunct1)
    next
      assume absent: "\<forall>e \<in> set (entries c). \<not> (cf_state e = CACHE_READY \<and> cf_pts e = p)"
      show "cf_frame (entries ?c'' ! j) = Some (length h)" using new[OF absent] by (rule conjunct2)
    qed
    have lv: "live h' (length h)" "live h' src"
      using hh s by (simp_all add: live_def)
    show "\<exists>i < FRAME_CACHE_SIZE. find_lru_entry c = int i \<and>
               cf_state (entries c' ! i) = CACHE_READY \<and> cf_pts (entries c' ! i) = p \<and>
               cf_frame (entries c' ! i) = Some (length h) \<and> length h \<noteq> src \<and>
               live h' (length h) \<and> h' ! length h = h ! src \<and>
               live h' src \<and> h' ! src = h ! src \<and>
               (\<exists>j \<le> i. \<exists>c''. frame_cache_get c' now p = (Some j, c'') \<and>
                   cf_pts (entries c' ! j) = p \<and>
                   cf_frame (entries c'' ! j) = cf_frame (entries c' ! j) \<and>
                   hits c'' = hits c + 1 \<and>
                   ((\<forall>e \<in> set (entries c). \<not> (cf_state e = CACHE_READY \<and> cf_pts e = p)) \<longrightarrow>
                      j = i \<and> cf_frame (entries c'' ! j) = Some (length h)))"
    proof (rule exI[of _ i], intro conjI)
      show "i < FRAME_CACHE_SIZE" using i len by simp
      show "find_lru_entry c = int i" by (rule f)
      show "cf_state (entries c' ! i) = CACHE_READY" using at e' by simp
      show "cf_pts (entries c' ! i) = p" using at e' by simp
      show "cf_frame (entries c' ! i) = Some (length h)" using at e' by simp
      show "length h \<noteq> src" using s(1) by simp
      show "live h' (length h)" by (rule lv(1))
      show "h' ! length h = h ! src" by (rule hh(2))
      show "live h' src" by (rule lv(2))
      show "h' ! src = h ! src" by (rule hh(3))
      show "\<exists>j \<le> i. \<exists>c''. frame_cache_get c' now p = (Some j, c'') \<and>
                   cf_pts (entries c' ! j) = p \<and>
                   cf_frame (entries c'' ! j) = cf_frame (entries c' ! j) \<and>
                   hits c'' = hits c + 1 \<and>
                   ((\<forall>e \<in> set (entries c). \<not> (cf_state e = CACHE_READY \<and> cf_pts e = p)) \<longrightarrow>
                      j = i \<and> cf_frame (entries c'' ! j) = Some (length h))"
        by (rule get)
    qed
  }
qed

text \<open>A miss on the fresh cache, then a put of the frame at address 0 and a hit.\<close>

theorem C6_get_after_put_witness:
  "frame_cache_get (frame_cache_init False) 200 5 =
     (None, (frame_cache_init False)\<lparr>misses := misses (frame_cache_init False) + 1\<rparr>) \<and>
   (\<exists>i < FRAME_CACHE_SIZE. find_lru_entry (frame_cache_init False) = int i \<and>
      cf_frame (entries (snd (snd (frame_cache_put [Some 7] (frame_cache_init False) 100 True True
                   (Some 0) 5 None None 0 0))) ! i) = Some (length [Some (7::nat)]) \<and>
      (\<exists>j \<le> i. \<exists>c''.
          frame_cache_get (snd (snd (frame_cache_put [Some 7] (frame_cache_init False) 100 True True
                   (Some 0) 5 None None 0 0))) 200 5 = (Some j, c'') \<and>
          hits c'' = hits (frame_cache_init False) + 1 \<and> j = i \<and>
          cf_frame (entries c'' ! j) = Some (length [Some (7::nat)])))"
proof -
  let ?c = "frame_cache_init False"
  let ?h = "[Some (7::nat)]"
  let ?r = "frame_cache_put ?h ?c 100 True True (Some 0) 5 None None 0 0"
  have h1: "cache_inv ?c" by code_simp
  have absent: "\<forall>e \<in> set (entries ?c). \<not> (cf_state e = CACHE_READY \<and> cf_pts e = 5)" by code_simp
  have ok: "fst ?r = True" by code_simp
  have res: "?r = (True, fst (snd ?r), snd (snd ?r))"
    using ok by (simp add: prod_eq_iff)
  note inst = C6_get_after_put[OF h1, of 5 200 ?h 100 True True 0 None None 0 0 "fst (snd ?r)" "snd (snd ?r)"]
  have miss: "frame_cache_get ?c 200 5 = (None, ?c\<lparr>misses := misses ?c + 1\<rparr>)"
    using inst[THEN conjunct2, THEN conjunct1, THEN mp, OF absent] .
  from inst[THEN conjunct2, THEN conjunct2, THEN mp, OF res]
  obtain i where i: "i < FRAME_CACHE_SIZE" "find_lru_entry ?c = int i"
    "cf_frame (entries (snd (snd ?r)) ! i) = Some (length ?h)"
    and g: "\<exists>j \<le> i. \<exists>c''. frame_cache_get (snd (snd ?r)) 200 5 = (Some j, c'') \<and>
                   cf_pts (entries (snd (snd ?r)) ! j) = 5 \<and>
                   cf_frame (entries c'' ! j) = cf_frame (entries (snd (snd ?r)) ! j) \<and>
                   hits c'' = hits ?c + 1 \<and>
                   ((\<forall>e \<in> set (entries ?c). \<not> (cf_state e = CACHE_READY \<and> cf_pts e = 5)) \<longrightarrow>
                      j = i \<and> cf_frame (entries c'' ! j) = Some (length ?h))"
    by blast
  from g absent have "\<exists>j \<le> i. \<exists>c''.
          frame_cache_get (snd (snd ?r)) 200 5 = (Some j, c'') \<and>
          hits c'' = hits ?c + 1 \<and> j = i \<and>
          cf_frame (entries c'' ! j) = Some (length ?h)"
    by blast
  then show ?thesis using miss i by blast
qed

subsection \<open>The invariant holds from initialisation on\<close>

lemma list_all_update:
  "list_all P xs \<Longrightarrow> P x \<Longrightarrow> list_all P (xs[i := x])"
  unfolding list_all_iff using set_update_subset_insert[of xs i x] by auto

lemma cache_inv_init: "cache_inv (frame_cache_init b)"
  by (simp add: cache_inv_def frame_cache_init_def list_all_iff)

lemma cache_inv_get:
  assumes "cache_inv c" "now < UINT64_MAX"
  shows "cache_inv (snd (frame_cache_get c now p))"
proof (cases "get_loop (entries c) 0 p")
  case None
  then show ?thesis using assms by (simp add: frame_cache_get_def cache_inv_def)
next
  case (Some i)
  from get_loop_Some[OF Some] have i: "i < length (entries c)" by auto
  have P: "list_all (\<lambda>e. cf_state e \<noteq> CACHE_READY \<or>
                     (cf_frame e \<noteq> None \<and> last_access_time e < UINT64_MAX)) (entries c)"
    using assms(1) by (simp add: cache_inv_def)
  then have Pi: "cf_state (entries c ! i) \<noteq> CACHE_READY \<or> cf_frame (entries c ! i) \<noteq> None"
    using i by (auto simp: list_all_length)
  show ?thesis
    using assms Some Pi
    by (auto simp: frame_cache_get_def cache_inv_def intro!: list_all_update)
qed

lemma cache_inv_release: "cache_inv c \<Longrightarrow> cache_inv (frame_cache_release c i)"
proof -
  assume inv: "cache_inv c"
  show ?thesis
  proof (cases "i < length (entries c)")
    case True
    have "cf_state (entries c ! i) \<noteq> CACHE_READY \<or>
          (cf_frame (entries c ! i) \<noteq> None \<and> last_access_time (entries c ! i) < UINT64_MAX)"
      using inv True by (auto simp: cache_inv_def list_all_length)
    then show ?thesis using inv
      by (auto simp: frame_cache_release_def cache_inv_def intro!: list_all_update)
  next
    case False
    then show ?thesis using inv by (simp add: frame_cache_release_def cache_inv_def list_update_beyond)
  qed
qed

lemma invalidate_loop_entries:
  "length (snd (invalidate_loop h es)) = length es \<and>
   list_all (\<lambda>e. cf_state e = CACHE_EMPTY) (snd (invalidate_loop h es))"
  by (induction es arbitrary: h) (auto simp: Let_def split_beta)

lemma cache_inv_invalidate:
  assumes "cache_inv c"
  shows "cache_inv (snd (frame_cache_invalidate h c))"
proof -
  have "list_all (\<lambda>e. cf_state e = CACHE_EMPTY) (snd (invalidate_loop h (entries c)))"
    using invalidate_loop_entries[of h "entries c"] by simp
  then have "list_all (\<lambda>e. cf_state e \<noteq> CACHE_READY \<or>
                     (cf_frame e \<noteq> None \<and> last_access_time e < UINT64_MAX))
               (snd (invalidate_loop h (entries c)))"
    by (auto simp: list_all_iff)
  then show ?thesis
    using assms invalidate_loop_entries[of h "entries c"]
    by (simp add: frame_cache_invalidate_def cache_inv_def split_beta)
qed

lemma cache_inv_put:
  assumes inv: "cache_inv c" and now: "now < UINT64_MAX"
  shows "cache_inv (snd (snd (frame_cache_put h c now ck bk fr p d ls w ht)))"
proof (cases fr)
  case None
  then show ?thesis using inv by (simp add: frame_cache_put_def)
next
  case (Some src)
  note en = cache_invD(2)[OF inv]
  have P: "list_all (\<lambda>e. cf_state e \<noteq> CACHE_READY \<or>
                     (cf_frame e \<noteq> None \<and> last_access_time e < UINT64_MAX)) (entries c)"
    using inv by (simp add: cache_inv_def)
  show ?thesis
  proof (cases "find_lru_entry c = - 1")
    case True
    then show ?thesis using inv Some by (simp add: put_no_slot)
  next
    case False
    then obtain i where i: "find_lru_entry c = int i"
      using find_lru_entry_range[of c] by (auto dest: zero_le_imp_eq_int)
    show ?thesis
    proof (cases "cf_frame (entries c ! i)")
      case None
      show ?thesis
      proof (cases "ck \<and> live h src")
        case True
        show ?thesis
          unfolding Some put_clone_ok_free[OF en i None conjunct1[OF True] conjunct2[OF True]]
          using inv now P by (auto simp: cache_inv_def intro!: list_all_update)
      next
        case False
        show ?thesis
          unfolding Some put_clone_fails_free[OF en i None False]
          using inv P by (auto simp: cache_inv_def intro!: list_all_update)
      qed
    next
      case (Some a)
      show ?thesis
      proof (cases "ck \<and> live (av_frame_free h a) src")
        case True
        show ?thesis
          unfolding \<open>fr = Some src\<close> put_clone_ok[OF en i Some conjunct1[OF True] conjunct2[OF True]]
          using inv now P by (auto simp: cache_inv_def intro!: list_all_update)
      next
        case False
        show ?thesis
          unfolding \<open>fr = Some src\<close> put_clone_fails[OF en i Some False]
          using inv P by (auto simp: cache_inv_def intro!: list_all_update)
      qed
    qed
  qed
qed

section \<open>Properties of pause and resume\<close>

text \<open>
  What \<^verbatim>\<open>ffmpeg_decoder_resume\<close> does by itself: on an initialised decoder (the only kind \<^verbatim>\<open>ffmpeg_decoder_pause_ready\<close> puts
  into \<^verbatim>\<open>DECODER_STATE_PAUSED_READY\<close>), \<^verbatim>\<open>ffmpeg_decoder_resume\<close> in that state, at
  most 10000 ms after the state was preserved, returns \<^verbatim>\<open>true\<close> and changes nothing
  but the state (now playing), the playing flag and the restored seek request: threads
  and source are as they were. Once more than 10000 ms have passed it returns
  \<^verbatim>\<open>false\<close> and the state becomes \<^verbatim>\<open>DECODER_STATE_STOPPED\<close>; in any other state it
  returns \<^verbatim>\<open>false\<close> and changes nothing. The same for \<^verbatim>\<open>pause_ready\<close> at time
  \<open>t0\<close> followed by \<^verbatim>\<open>resume\<close> at time \<open>t1\<close>. The elapsed time is the 64-bit
  difference of the two millisecond readings.
\<close>

theorem resume_state_machine:
  "(initialized d \<and> state d = DECODER_STATE_PAUSED_READY \<and>
      ns_to_ms now_ns - state_preserved_time d \<le> 10000 \<longrightarrow>
        ffmpeg_decoder_resume d now_ns =
          (True, d\<lparr>state := DECODER_STATE_PLAYING, playing := True,
                   seek_request := seek_request d \<or> seek_was_in_progress d,
                   seek_target := (if seek_was_in_progress d then preserved_seek_position d
                                   else seek_target d)\<rparr>)) \<and>
   (initialized d \<and> state d = DECODER_STATE_PAUSED_READY \<and>
      10000 < ns_to_ms now_ns - state_preserved_time d \<longrightarrow>
        ffmpeg_decoder_resume d now_ns = (False, d\<lparr>state := DECODER_STATE_STOPPED\<rparr>)) \<and>
   (state d \<noteq> DECODER_STATE_PAUSED_READY \<longrightarrow> ffmpeg_decoder_resume d now_ns = (False, d)) \<and>
   (initialized d \<longrightarrow>
      state (ffmpeg_decoder_pause_ready d t0) = DECODER_STATE_PAUSED_READY \<and>
      \<not> playing (ffmpeg_decoder_pause_ready d t0) \<and>
      (ns_to_ms t1 - ns_to_ms t0 \<le> 10000 \<longrightarrow>
         fst (ffmpeg_decoder_resume (ffmpeg_decoder_pause_ready d t0) t1) \<and>
         state (snd (ffmpeg_decoder_resume (ffmpeg_decoder_pause_ready d t0) t1)) =
           DECODER_STATE_PLAYING \<and>
         playing (snd (ffmpeg_decoder_resume (ffmpeg_decoder_pause_ready d t0) t1)) \<and>
         initialized (snd (ffmpeg_decoder_resume (ffmpeg_decoder_pause_ready d t0) t1)) \<and>
         thread_running (snd (ffmpeg_decoder_resume (ffmpeg_decoder_pause_ready d t0) t1)) =
           thread_running d \<and>
         display_thread_created (snd (ffmpeg_decoder_resume (ffmpeg_decoder_pause_ready d t0) t1)) =
           display_thread_created d \<and>
         format_ctx (snd (ffmpeg_decoder_resume (ffmpeg_decoder_pause_ready d t0) t1)) =
           format_ctx d \<and>
         seek_request (snd (ffmpeg_decoder_resume (ffmpeg_decoder_pause_ready d t0) t1)) =
           seek_request d \<and>
         seek_target (snd (ffmpeg_decoder_resume (ffmpeg_decoder_pause_ready d t0) t1)) =
           seek_target d) \<and>
      (10000 < ns_to_ms t1 - ns_to_ms t0 \<longrightarrow>
         \<not> fst (ffmpeg_decoder_resume (ffmpeg_decoder_pause_ready d t0) t1) \<and>
         state (snd (ffmpeg_decoder_resume (ffmpeg_decoder_pause_ready d t0) t1)) =
           DECODER_STATE_STOPPED))"
proof (intro conjI impI)
  assume "initialized d \<and> state d = DECODER_STATE_PAUSED_READY \<and>
      ns_to_ms now_ns - state_preserved_time d \<le> 10000"
  then show "ffmpeg_decoder_resume d now_ns =
          (True, d\<lparr>state := DECODER_STATE_PLAYING, playing := True,
                   seek_request := seek_request d \<or> seek_was_in_progress d,
                   seek_target := (if seek_was_in_progress d then preserved_seek_position d
                                   else seek_target d)\<rparr>)"
    by (auto simp: ffmpeg_decoder_resume_def Let_def not_less[symmetric])
next
  assume "initialized d \<and> state d = DECODER_STATE_PAUSED_READY \<and>
      10000 < ns_to_ms now_ns - state_preserved_time d"
  then show "ffmpeg_decoder_resume d now_ns = (False, d\<lparr>state := DECODER_STATE_STOPPED\<rparr>)"
    by (simp add: ffmpeg_decoder_resume_def Let_def)
next
  assume "state d \<noteq> DECODER_STATE_PAUSED_READY"
  then show "ffmpeg_decoder_resume d now_ns = (False, d)"
    by (simp add: ffmpeg_decoder_resume_def)
qed (auto simp: ffmpeg_decoder_resume_def ffmpeg_decoder_pause_ready_def Let_def not_less[symmetric])

text \<open>
  A decoder that is playing with both threads running: paused at 5000 ms, it resumes at
  9000 ms and keeps its thread; at 20000 ms the resume fails and the state is stopped.
\<close>

theorem resume_state_machine_witness:
  "fst (ffmpeg_decoder_resume
         (ffmpeg_decoder_pause_ready
            ((ffmpeg_decoder_create [0, 1, 2])
               \<lparr>initialized := True, thread_running := True, display_thread_created := True\<rparr>)
            5000000000) 9000000000) \<and>
   thread_running (snd (ffmpeg_decoder_resume
         (ffmpeg_decoder_pause_ready
            ((ffmpeg_decoder_create [0, 1, 2])
               \<lparr>initialized := True, thread_running := True, display_thread_created := True\<rparr>)
            5000000000) 9000000000)) \<and>
   \<not> fst (ffmpeg_decoder_resume
         (ffmpeg_decoder_pause_ready
            ((ffmpeg_decoder_create [0, 1, 2])
               \<lparr>initialized := True, thread_running := True, display_thread_created := True\<rparr>)
            5000000000) 20000000000) \<and>
   state (snd (ffmpeg_decoder_resume
         (ffmpeg_decoder_pause_ready
            ((ffmpeg_decoder_create [0, 1, 2])
               \<lparr>initialized := True, thread_running := True, display_thread_created := True\<rparr>)
            5000000000) 20000000000)) = DECODER_STATE_STOPPED"
proof -
  let ?d = "(ffmpeg_decoder_create [0, 1, 2])
               \<lparr>initialized := True, thread_running := True, display_thread_created := True\<rparr>"
  have i: "initialized ?d" by simp
  have tr: "thread_running ?d" by simp
  have a: "ns_to_ms 9000000000 - ns_to_ms 5000000000 \<le> 10000" by (simp add: ns_to_ms_def)
  have b: "10000 < ns_to_ms 20000000000 - ns_to_ms 5000000000" by (simp add: ns_to_ms_def)
  note s9 = resume_state_machine[of ?d _ 5000000000 9000000000,
              THEN conjunct2, THEN conjunct2, THEN conjunct2, THEN mp, OF i,
              THEN conjunct2, THEN conjunct2, THEN conjunct1, THEN mp, OF a]
  note s20 = resume_state_machine[of ?d _ 5000000000 20000000000,
              THEN conjunct2, THEN conjunct2, THEN conjunct2, THEN mp, OF i,
              THEN conjunct2, THEN conjunct2, THEN conjunct2, THEN mp, OF b]
  show ?thesis using s9 s20 tr by (simp only: simp_thms)
qed


text \<open>
  C9 fails in the code when the threads have been stopped in between. A decoder is
  playing with both threads; \<^verbatim>\<open>ffmpeg_decoder_pause_ready\<close> at 1000 ms puts it in
  \<^verbatim>\<open>DECODER_STATE_PAUSED_READY\<close>; \<^verbatim>\<open>ffmpeg_decoder_stop_thread\<close> joins both threads and
  leaves the state as it is, so that the decoder still passes for paused and ready;
  \<^verbatim>\<open>ffmpeg_decoder_resume\<close> at 4000 ms, within the 10000 ms, returns \<^verbatim>\<open>true\<close> with the
  state playing, and there is no thread to play: \<open>thread_running\<close> and
  \<open>display_thread_created\<close> are false.
\<close>

theorem C9_resume_after_thread_stop:
  "ffmpeg_decoder_resume
     (ffmpeg_decoder_stop_thread
        (ffmpeg_decoder_pause_ready
           (ffmpeg_decoder_play_with_timeline
              ((ffmpeg_decoder_create [0, 1, 2])\<lparr>initialized := True\<rparr>) 0 True)
           1000000000))
     4000000000
   = (True,
      (ffmpeg_decoder_create [0, 1, 2])
        \<lparr>initialized := True, playing := True, looping := True,
         waiting_for_first_frame := True, waiting_for_first_audio := True,
         thread_running := False, display_thread_created := False,
         interrupt_request := True,
         state := DECODER_STATE_PLAYING, state_preserved_time := 1000\<rparr>) \<and>
   thread_running
     (ffmpeg_decoder_play_with_timeline
        ((ffmpeg_decoder_create [0, 1, 2])\<lparr>initialized := True\<rparr>) 0 True) \<and>
   display_thread_created
     (ffmpeg_decoder_play_with_timeline
        ((ffmpeg_decoder_create [0, 1, 2])\<lparr>initialized := True\<rparr>) 0 True) \<and>
   ffmpeg_decoder_is_paused_ready
     (ffmpeg_decoder_stop_thread
        (ffmpeg_decoder_pause_ready
           (ffmpeg_decoder_play_with_timeline
              ((ffmpeg_decoder_create [0, 1, 2])\<lparr>initialized := True\<rparr>) 0 True)
           1000000000))"
  by (simp add: ffmpeg_decoder_resume_def ffmpeg_decoder_stop_thread_def
      ffmpeg_decoder_pause_ready_def ffmpeg_decoder_play_with_timeline_def
      ffmpeg_decoder_is_paused_ready_def ffmpeg_decoder_create_def ns_to_ms_def Let_def)

section \<open>Properties of the display thread\<close>

lemma sint_diff_late:
  fixes a b :: "64 word"
  assumes "- (2 ^ 63) \<le> uint a - uint b" "uint a - uint b < 2 ^ 63"
  shows "sint (a - b) = uint a - uint b"
proof -
  have e: "a - b = word_of_int (uint a - uint b)" by simp
  have "sint (word_of_int (uint a - uint b) :: 64 word) =
          signed_take_bit (LENGTH(64) - 1) (uint a - uint b)"
    by (rule sint_sbintrunc')
  also have "\<dots> = uint a - uint b"
    using assms by (simp add: signed_take_bit_int_eq_self)
  finally show ?thesis by (simp only: e[symmetric])
qed


lemma late_product:
  fixes display_time current :: "64 word"
  assumes late: "uint display_time + 500 < uint current"
    and range: "uint current - uint display_time \<le> 9223372036854"
  shows "sint (display_time - current) * 1000000 < - 500000000"
    and "- (2 ^ 63) \<le> sint (display_time - current) * 1000000"
    and "sint (display_time - current) * 1000000 < 2 ^ 63"
proof -
  have lo: "- (2 ^ 63) \<le> uint display_time - uint current" using range by simp
  have hi: "uint display_time - uint current < 2 ^ 63" using late by simp
  have s: "sint (display_time - current) = uint display_time - uint current"
    using lo hi by (rule sint_diff_late)
  show "sint (display_time - current) * 1000000 < - 500000000" unfolding s using late by simp
  show "- (2 ^ 63) \<le> sint (display_time - current) * 1000000" unfolding s using range by simp
  show "sint (display_time - current) * 1000000 < 2 ^ 63" unfolding s using late by simp
qed


text \<open>
  C7, as stated, fails on the count: a ready frame whose timestamp is negative is taken
  from the buffer and discarded as invalid before its lateness is looked at, and that
  path counts nothing. Here the frame has timestamp -1000 and deadline 1000 ms, the
  time is 5000 ms: the frame is skipped, \<^verbatim>\<open>drop_count\<close> stays 0 and so does
  \<open>frames_dropped\<close>.
\<close>

theorem C7_negative_pts_counterexample:
  "uint (1000 :: 64 word) + 500 < uint (ns_to_ms 5000000000) \<and>
   map_option fst (display_cycle 0
     ((ffmpeg_decoder_create [0, 1, 2])
        \<lparr>frames := [\<lparr>bf_frame = Some 0, bf_pts = - 1000, system_time = 1000, ready = True,
                     is_hw_frame = False, zero_copy = False, nv12_data = [None, None]\<rparr>,
                    \<lparr>bf_frame = Some 1, bf_pts = 0, system_time = 0, ready = False,
                     is_hw_frame = False, zero_copy = False, nv12_data = [None, None]\<rparr>,
                    \<lparr>bf_frame = Some 2, bf_pts = 0, system_time = 0, ready = False,
                     is_hw_frame = False, zero_copy = False, nv12_data = [None, None]\<rparr>],
          count := 1, video_cb := Some 10, opaque := Some 11\<rparr>) 5000000000)
     = Some SkippedInvalid \<and>
   map_option (fst \<circ> snd) (display_cycle 0
     ((ffmpeg_decoder_create [0, 1, 2])
        \<lparr>frames := [\<lparr>bf_frame = Some 0, bf_pts = - 1000, system_time = 1000, ready = True,
                     is_hw_frame = False, zero_copy = False, nv12_data = [None, None]\<rparr>,
                    \<lparr>bf_frame = Some 1, bf_pts = 0, system_time = 0, ready = False,
                     is_hw_frame = False, zero_copy = False, nv12_data = [None, None]\<rparr>,
                    \<lparr>bf_frame = Some 2, bf_pts = 0, system_time = 0, ready = False,
                     is_hw_frame = False, zero_copy = False, nv12_data = [None, None]\<rparr>],
          count := 1, video_cb := Some 10, opaque := Some 11\<rparr>) 5000000000)
     = Some 0 \<and>
   map_option (perf_monitor \<circ> snd \<circ> snd) (display_cycle 0
     ((ffmpeg_decoder_create [0, 1, 2])
        \<lparr>frames := [\<lparr>bf_frame = Some 0, bf_pts = - 1000, system_time = 1000, ready = True,
                     is_hw_frame = False, zero_copy = False, nv12_data = [None, None]\<rparr>,
                    \<lparr>bf_frame = Some 1, bf_pts = 0, system_time = 0, ready = False,
                     is_hw_frame = False, zero_copy = False, nv12_data = [None, None]\<rparr>,
                    \<lparr>bf_frame = Some 2, bf_pts = 0, system_time = 0, ready = False,
                     is_hw_frame = False, zero_copy = False, nv12_data = [None, None]\<rparr>],
          count := 1, video_cb := Some 10, opaque := Some 11\<rparr>) 5000000000)
     = Some (Some \<lparr>frames_dropped = 0\<rparr>)"
  by (simp add: display_cycle_def ffmpeg_decoder_create_def ns_to_ms_def Let_def)


text \<open>
  C7, amended: take a ready frame at the read index of a non-empty buffer whose deadline
  lies more than 500 ms in the past, and less than 9223372036854 ms, so that the
  difference in nanoseconds fits in 64 bits. If its timestamp is not negative and its
  deadline is not 0, the cycle drops it: the frame is consumed, \<^verbatim>\<open>drop_count\<close> and, when
  there is a performance monitor, \<open>frames_dropped\<close> go up by one, and nothing is handed
  to the sink. Otherwise the frame is discarded as invalid: consumed, not counted, and
  not handed to the sink either.
\<close>

theorem C7_late_frame_dropped:
  assumes idx: "0 \<le> read_idx d" "read_idx d < int (length (frames d))"
    and dequeued: "ready (frames d ! nat (read_idx d))" "count d \<noteq> 0"
    and late: "uint (system_time (frames d ! nat (read_idx d))) + 500 < uint (ns_to_ms now_ns)"
    and range: "uint (ns_to_ms now_ns) - uint (system_time (frames d ! nat (read_idx d)))
                  \<le> 9223372036854"
  shows "(0 \<le> sint (bf_pts (frames d ! nat (read_idx d))) \<and>
          system_time (frames d ! nat (read_idx d)) \<noteq> 0 \<longrightarrow>
            display_cycle drop_count d now_ns =
              Some (DroppedLate, drop_count + 1,
                    consume_frame
                      (d\<lparr>perf_monitor :=
                            map_option (\<lambda>m. m\<lparr>frames_dropped := frames_dropped m + 1\<rparr>)
                              (perf_monitor d)\<rparr>)
                      (read_idx d))) \<and>
         (sint (bf_pts (frames d ! nat (read_idx d))) < 0 \<or>
          system_time (frames d ! nat (read_idx d)) = 0 \<longrightarrow>
            display_cycle drop_count d now_ns =
              Some (SkippedInvalid, drop_count,
                    d\<lparr>frames := (frames d)[nat (read_idx d) :=
                                   (frames d ! nat (read_idx d))\<lparr>ready := False\<rparr>],
                      read_idx := (read_idx d + 1) mod 3,
                      count := count d - 1\<rparr>)) \<and>
         (\<exists>a n d'. display_cycle drop_count d now_ns = Some (a, n, d') \<and>
                   (a = DroppedLate \<or> a = SkippedInvalid) \<and>
                   count d' = count d - 1 \<and> read_idx d' = (read_idx d + 1) mod 3)"
proof -
  let ?bf = "frames d ! nat (read_idx d)"
  note lp = late_product[OF late range]
  have valid: "display_cycle drop_count d now_ns =
              Some (DroppedLate, drop_count + 1,
                    consume_frame
                      (d\<lparr>perf_monitor :=
                            map_option (\<lambda>m. m\<lparr>frames_dropped := frames_dropped m + 1\<rparr>)
                              (perf_monitor d)\<rparr>)
                      (read_idx d))"
    if "0 \<le> sint (bf_pts ?bf) \<and> system_time ?bf \<noteq> 0"
    using that idx dequeued lp
    by (simp add: display_cycle_def Let_def not_le not_less)
  have invalid: "display_cycle drop_count d now_ns =
              Some (SkippedInvalid, drop_count,
                    d\<lparr>frames := (frames d)[nat (read_idx d) := ?bf\<lparr>ready := False\<rparr>],
                      read_idx := (read_idx d + 1) mod 3,
                      count := count d - 1\<rparr>)"
    if "sint (bf_pts ?bf) < 0 \<or> system_time ?bf = 0"
    using that idx dequeued
    by (simp add: display_cycle_def Let_def not_le not_less)
  have either: "\<exists>a n d'. display_cycle drop_count d now_ns = Some (a, n, d') \<and>
                   (a = DroppedLate \<or> a = SkippedInvalid) \<and>
                   count d' = count d - 1 \<and> read_idx d' = (read_idx d + 1) mod 3"
  proof (cases "sint (bf_pts ?bf) < 0 \<or> system_time ?bf = 0")
    case True
    show ?thesis unfolding invalid[OF True] by simp
  next
    case False
    then have v: "0 \<le> sint (bf_pts ?bf) \<and> system_time ?bf \<noteq> 0" by auto
    show ?thesis unfolding valid[OF v] by (simp add: consume_frame_def Let_def)
  qed
  show ?thesis using valid invalid either by blast
qed


text \<open>The same buffer with a frame of timestamp 33000: dropped and counted.\<close>

theorem C7_late_frame_dropped_witness:
  "map_option fst (display_cycle 0
     ((ffmpeg_decoder_create [0, 1, 2])
        \<lparr>frames := [\<lparr>bf_frame = Some 0, bf_pts = 33000, system_time = 1000, ready = True,
                     is_hw_frame = False, zero_copy = False, nv12_data = [None, None]\<rparr>,
                    \<lparr>bf_frame = Some 1, bf_pts = 0, system_time = 0, ready = False,
                     is_hw_frame = False, zero_copy = False, nv12_data = [None, None]\<rparr>,
                    \<lparr>bf_frame = Some 2, bf_pts = 0, system_time = 0, ready = False,
                     is_hw_frame = False, zero_copy = False, nv12_data = [None, None]\<rparr>],
          count := 1, video_cb := Some 10, opaque := Some 11\<rparr>) 5000000000)
     = Some DroppedLate \<and>
   map_option (fst \<circ> snd) (display_cycle 0
     ((ffmpeg_decoder_create [0, 1, 2])
        \<lparr>frames := [\<lparr>bf_frame = Some 0, bf_pts = 33000, system_time = 1000, ready = True,
                     is_hw_frame = False, zero_copy = False, nv12_data = [None, None]\<rparr>,
                    \<lparr>bf_frame = Some 1, bf_pts = 0, system_time = 0, ready = False,
                     is_hw_frame = False, zero_copy = False, nv12_data = [None, None]\<rparr>,
                    \<lparr>bf_frame = Some 2, bf_pts = 0, system_time = 0, ready = False,
                     is_hw_frame = False, zero_copy = False, nv12_data = [None, None]\<rparr>],
          count := 1, video_cb := Some 10, opaque := Some 11\<rparr>) 5000000000)
     = Some 1"
proof -
  let ?d = "(ffmpeg_decoder_create [0, 1, 2])
        \<lparr>frames := [\<lparr>bf_frame = Some 0, bf_pts = 33000, system_time = 1000, ready = True,
                     is_hw_frame = False, zero_copy = False, nv12_data = [None, None]\<rparr>,
                    \<lparr>bf_frame = Some 1, bf_pts = 0, system_time = 0, ready = False,
                     is_hw_frame = False, zero_copy = False, nv12_data = [None, None]\<rparr>,
                    \<lparr>bf_frame = Some 2, bf_pts = 0, system_time = 0, ready = False,
                     is_hw_frame = False, zero_copy = False, nv12_data = [None, None]\<rparr>],
          count := 1, video_cb := Some 10, opaque := Some 11\<rparr>"
  have r: "read_idx ?d = 0" by (simp add: ffmpeg_decoder_create_def)
  have h1: "0 \<le> read_idx ?d" by (simp add: ffmpeg_decoder_create_def)
  have h2: "read_idx ?d < int (length (frames ?d))" by (simp add: ffmpeg_decoder_create_def)
  have h3: "ready (frames ?d ! nat (read_idx ?d))" by (simp add: ffmpeg_decoder_create_def)
  have h4: "count ?d \<noteq> 0" by simp
  have h5: "uint (system_time (frames ?d ! nat (read_idx ?d))) + 500 < uint (ns_to_ms 5000000000)"
    by (simp add: ffmpeg_decoder_create_def ns_to_ms_def)
  have h6: "uint (ns_to_ms 5000000000) - uint (system_time (frames ?d ! nat (read_idx ?d)))
                  \<le> 9223372036854"
    by (simp add: ffmpeg_decoder_create_def ns_to_ms_def)
  have v: "0 \<le> sint (bf_pts (frames ?d ! nat (read_idx ?d))) \<and>
          system_time (frames ?d ! nat (read_idx ?d)) \<noteq> 0"
    by (simp add: ffmpeg_decoder_create_def)
  note c = C7_late_frame_dropped[OF h1 h2 h3 h4 h5 h6, of 0, THEN conjunct1, THEN mp, OF v]
  show ?thesis by (simp only: c option.map fst_conv snd_conv comp_apply) simp
qed

section \<open>Properties of the hardware fallback\<close>

lemma hw_step_disabled:
  "\<not> hw_decoding_active d \<Longrightarrow> hw_transfer_step n d ev = (UseDecoded, n, d)"
  by (simp add: hw_transfer_step_def)

lemma hw_run_disabled:
  "\<not> hw_decoding_active d \<Longrightarrow>
     hw_transfer_run n d evs = (map (\<lambda>_. UseDecoded) evs, n, d)"
  by (induction evs) (simp_all add: hw_step_disabled)

lemma hw_run_active_iff:
  assumes "hw_decoding_active d"
    and "list_all (\<lambda>ev. is_hw_format ev \<and> (direct_format ev \<or> new_scaler ev \<noteq> None)) evs"
    and "n \<le> 5"
  shows "hw_decoding_active (snd (snd (hw_transfer_run n d evs))) \<longleftrightarrow>
           n + int (length (filter (\<lambda>ev. \<not> transfer_ok ev) evs)) \<le> 5"
  using assms
proof (induction evs arbitrary: n d)
  case Nil then show ?case by simp
next
  case (Cons ev evs)
  have hw: "is_hw_format ev" and sc: "direct_format ev \<or> new_scaler ev \<noteq> None"
    and rest: "list_all (\<lambda>ev. is_hw_format ev \<and> (direct_format ev \<or> new_scaler ev \<noteq> None)) evs"
    using Cons.prems(2) by simp_all
  show ?case
  proof (cases "transfer_ok ev")
    case True
    define d1 where "d1 = snd (snd (hw_transfer_step n d ev))"
    have "fst (hw_transfer_step n d ev) = UseTransferred \<and>
          fst (snd (hw_transfer_step n d ev)) = n \<and> hw_decoding_active d1"
      unfolding d1_def using True hw sc Cons.prems(1)
      by (auto simp: hw_transfer_step_def split: option.splits)
    then have st: "hw_transfer_step n d ev = (UseTransferred, n, d1)"
      and a1: "hw_decoding_active d1"
      unfolding d1_def by (simp_all add: prod_eq_iff)
    show ?thesis using Cons.IH[OF a1 rest Cons.prems(3)] st True
      by (simp add: split_beta)
  next
    case False
    show ?thesis
    proof (cases "5 < n + 1")
      case True
      have st: "hw_transfer_step n d ev = (Skip, 0, d\<lparr>hw_decoding_active := False\<rparr>)"
        using True False hw Cons.prems(1) by (simp add: hw_transfer_step_def Let_def)
      have "\<not> hw_decoding_active (snd (snd (hw_transfer_run 0 (d\<lparr>hw_decoding_active := False\<rparr>) evs)))"
        by (simp add: hw_run_disabled)
      then show ?thesis using st True False by (simp add: split_beta)
    next
      case F5: False
      have st: "hw_transfer_step n d ev = (Skip, n + 1, d)"
        using F5 False hw Cons.prems(1) by (simp add: hw_transfer_step_def Let_def)
      have n1: "n + 1 \<le> 5" using F5 by simp
      show ?thesis using Cons.IH[OF Cons.prems(1) rest n1] st False
        by (simp add: split_beta)
    qed
  qed
qed


text \<open>
  The counter as the code keeps it: it counts the transfer failures since it was last
  zero, and a successful transfer leaves it as it is. A failure whose count exceeds 5 disables the
  accelerated path and zeroes the counter; a failure below that only counts; either way
  the frame is skipped. Once the path is disabled every frame goes on as decoded and
  the path stays disabled. Over a run of hardware frames that starts enabled with the
  counter at \<open>n \<le> 5\<close>, and in which no scaler creation fails, the path is still
  enabled at the end exactly when \<open>n\<close> plus the number of failed transfers is at most 5.
\<close>

theorem hw_cumulative_failure_counter:
  "(hw_decoding_active d \<and> is_hw_format ev \<and> \<not> transfer_ok ev \<longrightarrow>
      hw_transfer_step n d ev =
        (if 5 < n + 1 then (Skip, 0, d\<lparr>hw_decoding_active := False\<rparr>) else (Skip, n + 1, d))) \<and>
   (hw_decoding_active d \<and> is_hw_format ev \<and> transfer_ok ev \<longrightarrow>
      fst (snd (hw_transfer_step n d ev)) = n) \<and>
   (\<not> hw_decoding_active d \<longrightarrow>
      hw_transfer_run n d evs = (map (\<lambda>_. UseDecoded) evs, n, d)) \<and>
   (hw_decoding_active d \<and> n \<le> 5 \<and>
    list_all (\<lambda>ev. is_hw_format ev \<and> (direct_format ev \<or> new_scaler ev \<noteq> None)) evs \<longrightarrow>
      (hw_decoding_active (snd (snd (hw_transfer_run n d evs))) \<longleftrightarrow>
         n + int (length (filter (\<lambda>ev. \<not> transfer_ok ev) evs)) \<le> 5))"
proof (intro conjI impI)
  assume "hw_decoding_active d \<and> is_hw_format ev \<and> \<not> transfer_ok ev"
  then show "hw_transfer_step n d ev =
        (if 5 < n + 1 then (Skip, 0, d\<lparr>hw_decoding_active := False\<rparr>) else (Skip, n + 1, d))"
    by (simp add: hw_transfer_step_def Let_def)
next
  assume "hw_decoding_active d \<and> is_hw_format ev \<and> transfer_ok ev"
  then show "fst (snd (hw_transfer_step n d ev)) = n"
    by (simp add: hw_transfer_step_def split: option.splits)
next
  assume "\<not> hw_decoding_active d"
  then show "hw_transfer_run n d evs = (map (\<lambda>_. UseDecoded) evs, n, d)"
    by (rule hw_run_disabled)
next
  assume "hw_decoding_active d \<and> n \<le> 5 \<and>
    list_all (\<lambda>ev. is_hw_format ev \<and> (direct_format ev \<or> new_scaler ev \<noteq> None)) evs"
  then show "hw_decoding_active (snd (snd (hw_transfer_run n d evs))) \<longleftrightarrow>
         n + int (length (filter (\<lambda>ev. \<not> transfer_ok ev) evs)) \<le> 5"
    using hw_run_active_iff[of d evs n] by blast
qed


text \<open>
  Three frames, the second transferred well: from a counter at 0 the path stays enabled
  (two failures), from a counter at 4 it is disabled (the count reaches 6).
\<close>

theorem hw_cumulative_failure_counter_witness:
  "hw_decoding_active (snd (snd (hw_transfer_run 0
       ((ffmpeg_decoder_create [0, 1, 2])\<lparr>hw_decoding_active := True\<rparr>)
       [\<lparr>is_hw_format = True, transfer_ok = False, direct_format = True, new_scaler = None\<rparr>,
        \<lparr>is_hw_format = True, transfer_ok = True, direct_format = True, new_scaler = None\<rparr>,
        \<lparr>is_hw_format = True, transfer_ok = False, direct_format = True, new_scaler = None\<rparr>]))) \<and>
   \<not> hw_decoding_active (snd (snd (hw_transfer_run 4
       ((ffmpeg_decoder_create [0, 1, 2])\<lparr>hw_decoding_active := True\<rparr>)
       [\<lparr>is_hw_format = True, transfer_ok = False, direct_format = True, new_scaler = None\<rparr>,
        \<lparr>is_hw_format = True, transfer_ok = True, direct_format = True, new_scaler = None\<rparr>,
        \<lparr>is_hw_format = True, transfer_ok = False, direct_format = True, new_scaler = None\<rparr>])))"
proof -
  let ?d = "(ffmpeg_decoder_create [0, 1, 2])\<lparr>hw_decoding_active := True\<rparr>"
  let ?evs = "[\<lparr>is_hw_format = True, transfer_ok = False, direct_format = True, new_scaler = None\<rparr>,
        \<lparr>is_hw_format = True, transfer_ok = True, direct_format = True, new_scaler = None\<rparr>,
        \<lparr>is_hw_format = True, transfer_ok = False, direct_format = True, new_scaler = None\<rparr>]"
  have h0: "hw_decoding_active ?d \<and> (0::int) \<le> 5 \<and>
    list_all (\<lambda>ev. is_hw_format ev \<and> (direct_format ev \<or> new_scaler ev \<noteq> None)) ?evs"
    by simp
  have h4: "hw_decoding_active ?d \<and> (4::int) \<le> 5 \<and>
    list_all (\<lambda>ev. is_hw_format ev \<and> (direct_format ev \<or> new_scaler ev \<noteq> None)) ?evs"
    by simp
  have c0: "(0::int) + int (length (filter (\<lambda>ev. \<not> transfer_ok ev) ?evs)) \<le> 5" by simp
  have c4: "\<not> (4::int) + int (length (filter (\<lambda>ev. \<not> transfer_ok ev) ?evs)) \<le> 5" by simp
  note a = hw_cumulative_failure_counter[of ?d _ 0 ?evs,
             THEN conjunct2, THEN conjunct2, THEN conjunct2, THEN mp, OF h0]
  note b = hw_cumulative_failure_counter[of ?d _ 4 ?evs,
             THEN conjunct2, THEN conjunct2, THEN conjunct2, THEN mp, OF h4]
  show ?thesis using a b c0 c4 by blast
qed


text \<open>
  C8 fails in the code. The counter is not one of consecutive failures: it is a
  function-static variable that no successful transfer resets. And when it trips,
  nothing falls back to software: only the flag \<open>hw_decoding_active\<close> is cleared, the
  frames keep the hardware pixel format, and with no scaler (none is created while
  NV12 or P010 frames are passed on as they are) every later frame is skipped. On a
  decoder with the accelerated path active, five failed transfers, a successful one and
  one more failure (so that the failures in a row are 1, 2, 3, 4, 5, 0, 1) disable the
  path; the frame of the successful transfer is the only one of the first seven that
  goes on, and the next three frames are skipped although nothing fails any more.
\<close>

theorem C8_breaker_trips_without_fallback:
  "frame_run 0 ((ffmpeg_decoder_create [0, 1, 2])\<lparr>hw_decoding_active := True\<rparr>)
       [\<lparr>is_hw_format = True, transfer_ok = False, direct_format = True, new_scaler = None\<rparr>,
        \<lparr>is_hw_format = True, transfer_ok = False, direct_format = True, new_scaler = None\<rparr>,
        \<lparr>is_hw_format = True, transfer_ok = False, direct_format = True, new_scaler = None\<rparr>,
        \<lparr>is_hw_format = True, transfer_ok = False, direct_format = True, new_scaler = None\<rparr>,
        \<lparr>is_hw_format = True, transfer_ok = False, direct_format = True, new_scaler = None\<rparr>,
        \<lparr>is_hw_format = True, transfer_ok = True, direct_format = True, new_scaler = None\<rparr>,
        \<lparr>is_hw_format = True, transfer_ok = False, direct_format = True, new_scaler = None\<rparr>,
        \<lparr>is_hw_format = True, transfer_ok = True, direct_format = True, new_scaler = None\<rparr>,
        \<lparr>is_hw_format = True, transfer_ok = True, direct_format = True, new_scaler = None\<rparr>,
        \<lparr>is_hw_format = True, transfer_ok = True, direct_format = True, new_scaler = None\<rparr>]
     = ([False, False, False, False, False, True, False, False, False, False], 0,
        (ffmpeg_decoder_create [0, 1, 2])\<lparr>hw_decoding_active := False\<rparr>) \<and>
   map (\<lambda>k. spec_consecutive_failures (take k
       [\<lparr>is_hw_format = True, transfer_ok = False, direct_format = True, new_scaler = None\<rparr>,
        \<lparr>is_hw_format = True, transfer_ok = False, direct_format = True, new_scaler = None\<rparr>,
        \<lparr>is_hw_format = True, transfer_ok = False, direct_format = True, new_scaler = None\<rparr>,
        \<lparr>is_hw_format = True, transfer_ok = False, direct_format = True, new_scaler = None\<rparr>,
        \<lparr>is_hw_format = True, transfer_ok = False, direct_format = True, new_scaler = None\<rparr>,
        \<lparr>is_hw_format = True, transfer_ok = True, direct_format = True, new_scaler = None\<rparr>,
        \<lparr>is_hw_format = True, transfer_ok = False, direct_format = True, new_scaler = None\<rparr>]))
     [1, 2, 3, 4, 5, 6, 7] = [1, 2, 3, 4, 5, 0, 1]"
proof (intro conjI)
  show "frame_run 0 ((ffmpeg_decoder_create [0, 1, 2])\<lparr>hw_decoding_active := True\<rparr>)
       [\<lparr>is_hw_format = True, transfer_ok = False, direct_format = True, new_scaler = None\<rparr>,
        \<lparr>is_hw_format = True, transfer_ok = False, direct_format = True, new_scaler = None\<rparr>,
        \<lparr>is_hw_format = True, transfer_ok = False, direct_format = True, new_scaler = None\<rparr>,
        \<lparr>is_hw_format = True, transfer_ok = False, direct_format = True, new_scaler = None\<rparr>,
        \<lparr>is_hw_format = True, transfer_ok = False, direct_format = True, new_scaler = None\<rparr>,
        \<lparr>is_hw_format = True, transfer_ok = True, direct_format = True, new_scaler = None\<rparr>,
        \<lparr>is_hw_format = True, transfer_ok = False, direct_format = True, new_scaler = None\<rparr>,
        \<lparr>is_hw_format = True, transfer_ok = True, direct_format = True, new_scaler = None\<rparr>,
        \<lparr>is_hw_format = True, transfer_ok = True, direct_format = True, new_scaler = None\<rparr>,
        \<lparr>is_hw_format = True, transfer_ok = True, direct_format = True, new_scaler = None\<rparr>]
     = ([False, False, False, False, False, True, False, False, False, False], 0,
        (ffmpeg_decoder_create [0, 1, 2])\<lparr>hw_decoding_active := False\<rparr>)"
    by (simp add: frame_step_def hw_transfer_step_def Let_def ffmpeg_decoder_create_def)
  show "map (\<lambda>k. spec_consecutive_failures (take k
       [\<lparr>is_hw_format = True, transfer_ok = False, direct_format = True, new_scaler = None\<rparr>,
        \<lparr>is_hw_format = True, transfer_ok = False, direct_format = True, new_scaler = None\<rparr>,
        \<lparr>is_hw_format = True, transfer_ok = False, direct_format = True, new_scaler = None\<rparr>,
        \<lparr>is_hw_format = True, transfer_ok = False, direct_format = True, new_scaler = None\<rparr>,
        \<lparr>is_hw_format = True, transfer_ok = False, direct_format = True, new_scaler = None\<rparr>,
        \<lparr>is_hw_format = True, transfer_ok = True, direct_format = True, new_scaler = None\<rparr>,
        \<lparr>is_hw_format = True, transfer_ok = False, direct_format = True, new_scaler = None\<rparr>]))
     [1, 2, 3, 4, 5, 6, 7] = [1, 2, 3, 4, 5, 0, 1]"
    by code_simp
qed

end
